theory Spec2Isabelle
  imports Complex_Main "HOL-Library.Word"
begin

section \<open>Machine model\<close>

text \<open>
  Coefficients are C \<^verbatim>\<open>int16_t\<close> values: 16-bit words, read as two's complement by
  \<open>sint\<close>. C promotes them to \<^verbatim>\<open>int\<close> before any arithmetic, so every expression of the
  source is computed on mathematical integers (none of them can leave 32 bits) and only the
  store into an \<^verbatim>\<open>int16_t\<close> slot narrows, by \<open>word_of_int\<close> (wrap-around).
  Buffers are lists; an access outside a buffer, a division by zero and a failed
  \<^verbatim>\<open>assert\<close> end the run with an error value.
\<close>

type_synonym int16 = "16 word"

datatype error = OutOfBounds | DivByZero | AssertFailed

definition bindE :: "error + 'a \<Rightarrow> ('a \<Rightarrow> error + 'b) \<Rightarrow> error + 'b" where
  "bindE m f = (case m of Inl e \<Rightarrow> Inl e | Inr x \<Rightarrow> f x)"

definition rd :: "'a list \<Rightarrow> nat \<Rightarrow> error + 'a" where
  "rd xs i = (if i < length xs then Inr (xs ! i) else Inl OutOfBounds)"

definition wr :: "'a list \<Rightarrow> nat \<Rightarrow> 'a \<Rightarrow> error + 'a list" where
  "wr xs i v = (if i < length xs then Inr (xs[i := v]) else Inl OutOfBounds)"

text \<open>A counted loop \<^verbatim>\<open>for (size_t i = 0; i < n; i++)\<close> over a state, stopping at the
  first error.\<close>

primrec foldE :: "(nat \<Rightarrow> 's \<Rightarrow> error + 's) \<Rightarrow> nat list \<Rightarrow> 's \<Rightarrow> error + 's" where
  "foldE body [] s = Inr s"
| "foldE body (i # is) s = (case body i s of Inl e \<Rightarrow> Inl e | Inr s' \<Rightarrow> foldE body is s')"

definition for_loop :: "nat \<Rightarrow> (nat \<Rightarrow> 's \<Rightarrow> error + 's) \<Rightarrow> 's \<Rightarrow> error + 's" where
  "for_loop n body s = foldE body [0..<n] s"

text \<open>\<^verbatim>\<open>size_t\<close> subtraction wraps around (64-bit \<^verbatim>\<open>size_t\<close>).\<close>

definition size_sub :: "nat \<Rightarrow> nat \<Rightarrow> nat" where
  "size_sub a b = (if b \<le> a then a - b else a + 2 ^ 64 - b)"

text \<open>C integer division truncates towards zero.\<close>

definition cdiv :: "int \<Rightarrow> int \<Rightarrow> int" where
  "cdiv a b = (if (a < 0) = (b < 0) then \<bar>a\<bar> div \<bar>b\<bar> else - (\<bar>a\<bar> div \<bar>b\<bar>))"

text \<open>
  The noise gate divides \<^verbatim>\<open>float\<close> values. A finite \<^verbatim>\<open>float\<close> is a real number and
  the result of a \<^verbatim>\<open>float\<close> division is the real quotient rounded to a \<^verbatim>\<open>float\<close>; the
  rounding function \<open>rnd\<close> is a parameter of the model (the identity gives exact
  arithmetic; IEEE 754 rounding is monotone). The conversions \<^verbatim>\<open>(float)q\<close> and
  \<^verbatim>\<open>(float)out[len + i]\<close> of 16-bit integers are exact.
\<close>

definition fdiv :: "(real \<Rightarrow> real) \<Rightarrow> real \<Rightarrow> real \<Rightarrow> real" where
  "fdiv rnd a b = rnd (a / b)"

section \<open>The 1D lift kernel (\<^verbatim>\<open>sLift1d\<close>)\<close>

text \<open>The kernel is chosen at compile time by \<^verbatim>\<open>AKO_WAVELET\<close> (0, 1, 2, 3).\<close>

datatype wavelet = NoWavelet | Haar | CDF53 | DD97

definition hp_haar :: "nat \<Rightarrow> int16 list \<Rightarrow> nat \<Rightarrow> int16 list \<Rightarrow> error + int16 list" where
  "hp_haar len inp i out =
     bindE (rd inp (i * 2)) (\<lambda>e.
     bindE (rd inp (i * 2 + 1)) (\<lambda>od.
       wr out (len + i) (word_of_int (sint od - cdiv (sint e + sint od) 2))))"

definition hp_cdf53 :: "nat \<Rightarrow> int16 list \<Rightarrow> nat \<Rightarrow> int16 list \<Rightarrow> error + int16 list" where
  "hp_cdf53 len inp i out =
     (if i < size_sub len 2 then
        bindE (rd inp (i * 2 + 1)) (\<lambda>od.
        bindE (rd inp (i * 2)) (\<lambda>e.
        bindE (rd inp (i * 2 + 2)) (\<lambda>e1.
          wr out (len + i) (word_of_int (sint od - cdiv (sint e + sint e1) 2)))))
      else
        bindE (rd inp (i * 2 + 1)) (\<lambda>od.
        bindE (rd inp (i * 2)) (\<lambda>e.
          wr out (len + i) (word_of_int (sint od - cdiv (sint e + sint e) 2)))))"

definition hp_97dd :: "nat \<Rightarrow> int16 list \<Rightarrow> nat \<Rightarrow> int16 list \<Rightarrow> error + int16 list" where
  "hp_97dd len inp i out =
     bindE (rd inp (i * 2)) (\<lambda>even_i.
     bindE (if i \<ge> 1 then rd inp (i * 2 - 2) else Inr even_i) (\<lambda>even_il1.
     bindE (if i \<le> size_sub len 2 then rd inp (i * 2 + 2) else Inr even_i) (\<lambda>even_ip1.
     bindE (if i \<le> size_sub len 4 then rd inp (i * 2 + 4) else Inr even_ip1) (\<lambda>even_ip2.
     bindE (rd inp (i * 2 + 1)) (\<lambda>od.
       wr out (len + i)
         (word_of_int (sint od -
            cdiv (- (sint even_il1 + sint even_ip2) + 9 * (sint even_i + sint even_ip1)) 16)))))))"

text \<open>The loop body of the branch ``Fallback to CDF53'' of the 97DD build.\<close>

definition hp_97dd_fallback :: "nat \<Rightarrow> int16 list \<Rightarrow> nat \<Rightarrow> int16 list \<Rightarrow> error + int16 list" where
  "hp_97dd_fallback len inp i out =
     (if i < size_sub len 2 then
        bindE (rd inp (i * 2 + 1)) (\<lambda>od.
        bindE (rd inp (i * 2)) (\<lambda>e.
        bindE (rd inp (i * 2 + 2)) (\<lambda>e1.
          wr out (len + i) (word_of_int (sint od - cdiv (sint e + sint e1) 2)))))
      else
        bindE (rd inp (i * 2 + 1)) (\<lambda>od.
        bindE (rd inp (i * 2)) (\<lambda>e.
          wr out (len + i) (word_of_int (sint od - cdiv (sint e + sint e) 2)))))"

text \<open>The highpass pass of the build \<open>w\<close>; a build without wavelet has none.\<close>

definition hp_pass :: "wavelet \<Rightarrow> nat \<Rightarrow> int16 list \<Rightarrow> int16 list \<Rightarrow> error + int16 list" where
  "hp_pass w len inp out =
     (case w of
        NoWavelet \<Rightarrow> Inr out
      | Haar \<Rightarrow> for_loop len (hp_haar len inp) out
      | CDF53 \<Rightarrow> for_loop len (hp_cdf53 len inp) out
      | DD97 \<Rightarrow>
          if len > 4 then for_loop len (hp_97dd len inp) out
          else for_loop len (hp_97dd_fallback len inp) out)"

definition lp_step :: "wavelet \<Rightarrow> nat \<Rightarrow> int16 list \<Rightarrow> nat \<Rightarrow> int16 list \<Rightarrow> error + int16 list" where
  "lp_step w len inp i out =
     (if w \<noteq> Haar then
        (if i > 0 then
           bindE (rd inp (i * 2)) (\<lambda>e.
           bindE (rd out (len + i)) (\<lambda>h.
           bindE (rd out (len + i - 1)) (\<lambda>h1.
             wr out i (word_of_int (sint e + cdiv (sint h + sint h1) 4)))))
         else
           bindE (rd inp (i * 2)) (\<lambda>e.
           bindE (rd out (len + i)) (\<lambda>h.
             wr out i (word_of_int (sint e + cdiv (sint h + sint h) 4)))))
      else
        bindE (rd inp (i * 2)) (\<lambda>e.
        bindE (rd inp (i * 2 + 1)) (\<lambda>od.
          wr out i (word_of_int (cdiv (sint e + sint od) 2)))))"

definition noise_gate_hit :: "(real \<Rightarrow> real) \<Rightarrow> int16 \<Rightarrow> real \<Rightarrow> int16 \<Rightarrow> bool" where
  "noise_gate_hit rnd q g v =
     (let val = real_of_int (sint v); fq = real_of_int (sint q)
      in fdiv rnd val fq > fdiv rnd (- g) fq \<and> fdiv rnd val fq < fdiv rnd g fq)"

definition degrade_step ::
  "(real \<Rightarrow> real) \<Rightarrow> int16 \<Rightarrow> real \<Rightarrow> nat \<Rightarrow> nat \<Rightarrow> int16 list \<Rightarrow> error + int16 list" where
  "degrade_step rnd q g len i out =
     bindE (rd out (len + i)) (\<lambda>v.
     bindE (if noise_gate_hit rnd q g v then wr out (len + i) 0 else Inr out) (\<lambda>out1.
     bindE (rd out1 (len + i)) (\<lambda>v1.
       if sint q = 0 then Inl DivByZero
       else wr out1 (len + i) (word_of_int (cdiv (sint v1) (sint q))))))"

definition sLift1d ::
  "wavelet \<Rightarrow> (real \<Rightarrow> real) \<Rightarrow> int16 \<Rightarrow> real \<Rightarrow> nat \<Rightarrow> int16 list \<Rightarrow> int16 list
     \<Rightarrow> error + int16 list" where
  "sLift1d w rnd q g len inp out =
     bindE (hp_pass w len inp out) (\<lambda>out1.
     bindE (for_loop len (lp_step w len inp) out1) (\<lambda>out2.
       for_loop len (degrade_step rnd q g len) out2))"


section \<open>The separable 2D lift step (\<^verbatim>\<open>sLift2d\<close>)\<close>

text \<open>
  \<^verbatim>\<open>DwtTransform\<close> works on three buffers: the scratch \<^verbatim>\<open>aux_memory\<close>, the planar
  input \<^verbatim>\<open>in\<close> and the output \<^verbatim>\<open>out\<close>. A pointer into \<^verbatim>\<open>in\<close> or \<^verbatim>\<open>out\<close> is a
  buffer name with an offset.
\<close>

record mem =
  aux_memory :: "int16 list"
  in_mem :: "int16 list"
  out_mem :: "int16 list"

datatype buf = InBuf | OutBuf

type_synonym ptr = "buf \<times> nat"

definition buf_get :: "mem \<Rightarrow> buf \<Rightarrow> int16 list" where
  "buf_get m b = (case b of InBuf \<Rightarrow> in_mem m | OutBuf \<Rightarrow> out_mem m)"

definition buf_put :: "mem \<Rightarrow> buf \<Rightarrow> int16 list \<Rightarrow> mem" where
  "buf_put m b xs = (case b of InBuf \<Rightarrow> m\<lparr>in_mem := xs\<rparr> | OutBuf \<Rightarrow> m\<lparr>out_mem := xs\<rparr>)"

definition ptr_add :: "ptr \<Rightarrow> nat \<Rightarrow> ptr" where
  "ptr_add p n = (fst p, snd p + n)"

definition rd_ptr :: "mem \<Rightarrow> ptr \<Rightarrow> nat \<Rightarrow> error + int16" where
  "rd_ptr m p i = rd (buf_get m (fst p)) (snd p + i)"

definition wr_ptr :: "mem \<Rightarrow> ptr \<Rightarrow> nat \<Rightarrow> int16 \<Rightarrow> error + mem" where
  "wr_ptr m p i v =
     bindE (wr (buf_get m (fst p)) (snd p + i) v) (\<lambda>xs. Inr (buf_put m (fst p) xs))"

definition wr_aux :: "mem \<Rightarrow> nat \<Rightarrow> int16 \<Rightarrow> error + mem" where
  "wr_aux m i v = bindE (wr (aux_memory m) i v) (\<lambda>xs. Inr (m\<lparr>aux_memory := xs\<rparr>))"

text \<open>
  The two call sites of \<^verbatim>\<open>sLift1d\<close>. The kernel sees its input from \<^verbatim>\<open>aux\<close> on and its
  output from the pointer \<^verbatim>\<open>out\<close> on. In the column pass both lie in \<^verbatim>\<open>aux\<close>, the
  output \<open>2 * target_h\<close> slots after the input; the kernel reads no input slot after it has
  written it, so the two views are kept apart.
\<close>

definition sLift1d_rows ::
  "wavelet \<Rightarrow> (real \<Rightarrow> real) \<Rightarrow> int16 \<Rightarrow> real \<Rightarrow> nat \<Rightarrow> mem \<Rightarrow> ptr \<Rightarrow> error + mem" where
  "sLift1d_rows w rnd q g len m out =
     (let xs = buf_get m (fst out) in
      bindE (sLift1d w rnd q g len (aux_memory m) (drop (snd out) xs)) (\<lambda>r.
        Inr (buf_put m (fst out) (take (snd out) xs @ r))))"

definition sLift1d_cols ::
  "wavelet \<Rightarrow> (real \<Rightarrow> real) \<Rightarrow> int16 \<Rightarrow> real \<Rightarrow> nat \<Rightarrow> mem \<Rightarrow> error + mem" where
  "sLift1d_cols w rnd q g len m =
     (let xs = aux_memory m in
      bindE (sLift1d w rnd q g len xs (drop (len * 2) xs)) (\<lambda>r.
        Inr (m\<lparr>aux_memory := take (len * 2) xs @ r\<rparr>)))"

definition memcpy_ptr :: "mem \<Rightarrow> ptr \<Rightarrow> ptr \<Rightarrow> nat \<Rightarrow> error + mem" where
  "memcpy_ptr m dst src n = for_loop n (\<lambda>i m. bindE (rd_ptr m src i) (wr_ptr m dst i)) m"

text \<open>One row of the first pass; the pointers \<^verbatim>\<open>in\<close> and \<^verbatim>\<open>out\<close>, bumped once per row
  in the source, are written as the offsets they have reached at row \<open>row\<close>.\<close>

definition lift_row ::
  "wavelet \<Rightarrow> (real \<Rightarrow> real) \<Rightarrow> int16 \<Rightarrow> real \<Rightarrow> nat \<Rightarrow> nat \<Rightarrow> nat \<Rightarrow> ptr \<Rightarrow> ptr
     \<Rightarrow> nat \<Rightarrow> mem \<Rightarrow> error + mem" where
  "lift_row w rnd q g current_w target_w in_pitch a b row m =
     (let fake_last_col = size_sub (target_w * 2) current_w;
          inp = ptr_add a (row * (current_w + in_pitch));
          out = ptr_add b (row * (target_w * 2))
      in
      bindE (for_loop current_w (\<lambda>i m. bindE (rd_ptr m inp i) (wr_aux m i)) m) (\<lambda>m1.
      bindE (if fake_last_col \<noteq> 0
             then bindE (rd_ptr m1 inp (size_sub current_w 1))
                    (wr_aux m1 (size_sub (target_w * 2) 1))
             else Inr m1) (\<lambda>m2.
        sLift1d_rows w rnd q g target_w m2 out)))"

definition lift_col ::
  "wavelet \<Rightarrow> (real \<Rightarrow> real) \<Rightarrow> int16 \<Rightarrow> real \<Rightarrow> nat \<Rightarrow> nat \<Rightarrow> ptr \<Rightarrow> ptr
     \<Rightarrow> nat \<Rightarrow> mem \<Rightarrow> error + mem" where
  "lift_col w rnd q g target_w target_h a b col m =
     bindE (for_loop (target_h * 2)
              (\<lambda>i m. bindE (rd_ptr m b (col + i * (target_w * 2))) (wr_aux m i)) m) (\<lambda>m1.
     bindE (sLift1d_cols w rnd q g target_h m1) (\<lambda>m2.
       for_loop (target_h * 2)
         (\<lambda>i m. bindE (rd (aux_memory m) (target_h * 2 + i))
                   (wr_ptr m a (col + i * (target_w * 2)))) m2))"

definition sLift2d ::
  "wavelet \<Rightarrow> (real \<Rightarrow> real) \<Rightarrow> nat \<Rightarrow> int16 \<Rightarrow> real \<Rightarrow> nat \<Rightarrow> nat \<Rightarrow> nat \<Rightarrow> nat \<Rightarrow> nat
     \<Rightarrow> mem \<Rightarrow> ptr \<Rightarrow> ptr \<Rightarrow> error + mem" where
  "sLift2d w rnd ch q g current_w current_h target_w target_h in_pitch m a b =
     (let fake_last_row = size_sub (target_h * 2) current_h;
          out = ptr_add b (current_h * (target_w * 2))
      in
      bindE (for_loop current_h (lift_row w rnd q g current_w target_w in_pitch a b) m) (\<lambda>m1.
      bindE (if fake_last_row \<noteq> 0
             then (if snd out < target_w * 2 then Inl OutOfBounds
                   else memcpy_ptr m1 out (fst out, snd out - target_w * 2) (target_w * 2))
             else Inr m1) (\<lambda>m2.
        for_loop (target_w * 2) (lift_col w rnd q g target_w target_h a b) m2)))"

section \<open>Flattening a quadrant (\<^verbatim>\<open>s2dToLinearH\<close>, \<^verbatim>\<open>s2dToLinearV\<close>)\<close>

text \<open>Source and destination are a buffer with an offset; the destination pointer,
  bumped after every store in the source, is written as the index it has reached.\<close>

definition s2dToLinearH ::
  "nat \<Rightarrow> nat \<Rightarrow> nat \<Rightarrow> int16 list \<Rightarrow> nat \<Rightarrow> int16 list \<Rightarrow> nat \<Rightarrow> error + int16 list" where
  "s2dToLinearH w h in_pitch inp ioff out ooff =
     for_loop h (\<lambda>r. for_loop w (\<lambda>c dst.
       bindE (rd inp (ioff + (r * in_pitch) + c)) (wr dst (ooff + (r * w + c))))) out"

definition s2dToLinearV ::
  "nat \<Rightarrow> nat \<Rightarrow> nat \<Rightarrow> int16 list \<Rightarrow> nat \<Rightarrow> int16 list \<Rightarrow> nat \<Rightarrow> error + int16 list" where
  "s2dToLinearV w h in_pitch inp ioff out ooff =
     for_loop w (\<lambda>c. for_loop h (\<lambda>r dst.
       bindE (rd inp (ioff + c + (r * in_pitch))) (wr dst (ooff + (c * h + r))))) out"

section \<open>The pyramid driver (\<^verbatim>\<open>DwtTransform\<close>)\<close>

text \<open>
  \<^verbatim>\<open>struct AkoSettings\<close> holds one \<^verbatim>\<open>float\<close> per channel for the quantization and for the
  noise gate. A finite \<^verbatim>\<open>float\<close> is a real number; comparing two of them and halving one
  (above the subnormal range) are exact.
\<close>

record AkoSettings =
  quantization :: "nat \<Rightarrow> real"
  noise_gate :: "nat \<Rightarrow> real"

text \<open>
  What the build and the rest of the library fix: the kernel \<^verbatim>\<open>AKO_WAVELET\<close>; the rounding
  of \<^verbatim>\<open>float\<close> division; the value of the \<^verbatim>\<open>powf\<close> expression \<^verbatim>\<open>mk3_g\<close> as a function of
  \<open>user_g\<close>, \<open>lift\<close> and \<open>total_lifts\<close>; and the helpers \<^verbatim>\<open>TileTotalLength\<close> and
  \<^verbatim>\<open>TileTotalLifts\<close>, which \<^verbatim>\<open>DwtTransform\<close> calls and which are defined in another file.
\<close>

record env =
  AKO_WAVELET :: wavelet
  float_round :: "real \<Rightarrow> real"
  mk3_gate :: "real \<Rightarrow> nat \<Rightarrow> nat \<Rightarrow> real"
  TileTotalLength :: "nat \<Rightarrow> nat \<Rightarrow> nat"
  TileTotalLifts :: "nat \<Rightarrow> nat \<Rightarrow> nat"

text \<open>
  The cast \<^verbatim>\<open>(int16_t)q\<close> of a \<^verbatim>\<open>float\<close>: truncation towards zero. For a value outside
  the range of \<^verbatim>\<open>int16_t\<close> C leaves the result undefined; x86-64 and AArch64 compilers
  convert a value that fits 32 bits to \<^verbatim>\<open>int\<close> and keep the low 16 bits, which is what the
  model does.
\<close>

definition float_to_int16 :: "real \<Rightarrow> int16" where
  "float_to_int16 x = word_of_int (if 0 \<le> x then \<lfloor>x\<rfloor> else \<lceil>x\<rceil>)"

text \<open>The loop \<^verbatim>\<open>for (i = 0; i < lift; i++) mk1 = mk1 / 2.0f\<close>.\<close>

primrec halve :: "nat \<Rightarrow> real \<Rightarrow> real" where
  "halve 0 x = x"
| "halve (Suc n) x = halve n (x / 2)"

text \<open>The block ``Quantization/Noise gate'': the pair \<open>(q, g)\<close> for a channel and a lift.\<close>

definition quant_gate :: "env \<Rightarrow> AkoSettings \<Rightarrow> nat \<Rightarrow> nat \<Rightarrow> nat \<Rightarrow> real \<times> real" where
  "quant_gate E s total_lifts lift ch =
     (let user_g = noise_gate s ch;
          user_q = quantization s ch;
          user_g = (if user_g < 0 then 0 else user_g);
          user_q = (if user_q < 1 then 1 else user_q);
          mk1_q = halve lift user_q;
          mk3_g = mk3_gate E user_g lift total_lifts;
          q = mk1_q;
          g = mk3_g;
          q = (if q < 1 then 1 else q);
          g = (if g < 0 then 0 else g)
      in (q, g))"

text \<open>The output cursor is an offset into \<^verbatim>\<open>out\<close>; moving it before the start of the
  buffer is an error.\<close>

definition cursor_back :: "nat \<Rightarrow> nat \<Rightarrow> error + nat" where
  "cursor_back cursor n = (if n \<le> cursor then Inr (cursor - n) else Inl OutOfBounds)"

text \<open>The block ``Emit'' for one channel: three highpass quadrants of the plane at \<open>lp\<close>,
  then one head.\<close>

definition emit_highpasses ::
  "nat \<Rightarrow> nat \<Rightarrow> nat \<Rightarrow> int16 \<Rightarrow> mem \<times> nat \<Rightarrow> error + mem \<times> nat" where
  "emit_highpasses target_w target_h lp q mc =
     (let m = fst mc in
      bindE (cursor_back (snd mc) ((target_w * target_h) * 3)) (\<lambda>output_cursor.
      bindE (s2dToLinearV target_w target_h (target_w * 2) (in_mem m)
               (lp + target_w * target_h * 2)
               (out_mem m) (output_cursor + (target_w * target_h) * 0)) (\<lambda>o1.
      bindE (s2dToLinearV target_w target_h (target_w * 2) (in_mem m)
               (lp + target_w)
               o1 (output_cursor + (target_w * target_h) * 1)) (\<lambda>o2.
      bindE (s2dToLinearV target_w target_h (target_w * 2) (in_mem m)
               (lp + target_w + target_h * (target_w * 2))
               o2 (output_cursor + (target_w * target_h) * 2)) (\<lambda>o3.
      bindE (cursor_back output_cursor 1) (\<lambda>output_cursor.
      bindE (wr o3 output_cursor q) (\<lambda>o4.
        Inr (m\<lparr>out_mem := o4\<rparr>, output_cursor))))))))"

text \<open>The body of the channel loop inside the loop over the lifts. The call of
  \<^verbatim>\<open>DevSaveGrayPgm\<close>, a development aid that saves a picture of the plane, touches none
  of the buffers and is left out.\<close>

definition lift_channel ::
  "env \<Rightarrow> AkoSettings \<Rightarrow> nat \<Rightarrow> nat \<Rightarrow> nat \<Rightarrow> nat \<Rightarrow> nat \<Rightarrow> nat \<Rightarrow> nat \<Rightarrow> nat \<Rightarrow> nat
     \<Rightarrow> mem \<times> nat \<Rightarrow> error + mem \<times> nat" where
  "lift_channel E s tile_w tile_h planes_space lift current_w current_h target_w target_h ch mc =
     (let (q, g) = quant_gate E s (TileTotalLifts E tile_w tile_h) lift ch;
          lp = ((tile_w * tile_h) + planes_space) * ch
      in
      bindE (if lift = 0
             then sLift2d (AKO_WAVELET E) (float_round E) ch (float_to_int16 q) g
                    tile_w tile_h target_w target_h 0 (fst mc)
                    (InBuf, lp) (OutBuf, (tile_w * tile_h) * ch)
             else sLift2d (AKO_WAVELET E) (float_round E) ch (float_to_int16 q) g
                    current_w current_h target_w target_h current_w (fst mc)
                    (InBuf, lp) (InBuf, lp + (current_w * current_h * 2))) (\<lambda>m1.
        emit_highpasses target_w target_h lp (float_to_int16 q) (m1, snd mc)))"

text \<open>The body of the loop ``Lowpasses (one per-channel)''.\<close>

definition emit_lowpass ::
  "nat \<Rightarrow> nat \<Rightarrow> nat \<Rightarrow> nat \<Rightarrow> nat \<Rightarrow> nat \<Rightarrow> mem \<times> nat \<Rightarrow> error + mem \<times> nat" where
  "emit_lowpass tile_w tile_h planes_space target_w target_h ch mc =
     (let m = fst mc in
      bindE (cursor_back (snd mc) (target_w * target_h)) (\<lambda>output_cursor.
      bindE (s2dToLinearH target_w target_h (target_w * 2) (in_mem m)
               (((tile_w * tile_h) + planes_space) * ch) (out_mem m) output_cursor) (\<lambda>o1.
        Inr (m\<lparr>out_mem := o1\<rparr>, output_cursor))))"

text \<open>\<^verbatim>\<open>for (size_t ch = (channels - 1); ch < channels; ch--)\<close>: the channels from the last
  to the first; the index wraps around below zero, which ends the loop.\<close>

definition channels_down :: "nat \<Rightarrow> nat list" where
  "channels_down channels = rev [0..<channels]"

definition half_up :: "nat \<Rightarrow> nat" where
  "half_up n = (if n mod 2 = 0 then n div 2 else (n + 1) div 2)"

record dwt_state =
  lift :: nat
  target_w :: nat
  target_h :: nat
  output_cursor :: nat
  memory :: mem

text \<open>The loop ``Highpasses''.\<close>

function highpasses ::
  "env \<Rightarrow> AkoSettings \<Rightarrow> nat \<Rightarrow> nat \<Rightarrow> nat \<Rightarrow> nat \<Rightarrow> dwt_state \<Rightarrow> error + dwt_state" where
  "highpasses E s tile_w tile_h channels planes_space st =
     (if target_w st > 2 \<and> target_h st > 2 then
        (let current_w = target_w st;
             current_h = target_h st;
             tw = half_up (target_w st);
             th = half_up (target_h st)
         in case foldE (lift_channel E s tile_w tile_h planes_space (lift st)
                          current_w current_h tw th)
                   (channels_down channels) (memory st, output_cursor st) of
              Inl e \<Rightarrow> Inl e
            | Inr mc \<Rightarrow>
                highpasses E s tile_w tile_h channels planes_space
                  \<lparr>lift = lift st + 1, target_w = tw, target_h = th,
                   output_cursor = snd mc, memory = fst mc\<rparr>)
      else Inr st)"
  by pat_completeness auto
termination
  by (relation "measure (\<lambda>(E, s, tile_w, tile_h, channels, planes_space, st). target_w st)")
     (auto simp: half_up_def)

declare highpasses.simps [simp del]

text \<open>Everything up to the final \<^verbatim>\<open>assert\<close>, for a build with a wavelet.\<close>

definition dwt_emit ::
  "env \<Rightarrow> AkoSettings \<Rightarrow> nat \<Rightarrow> nat \<Rightarrow> nat \<Rightarrow> nat \<Rightarrow> mem \<Rightarrow> error + dwt_state" where
  "dwt_emit E s tile_w tile_h channels planes_space m =
     bindE (highpasses E s tile_w tile_h channels planes_space
              \<lparr>lift = 0, target_w = tile_w, target_h = tile_h,
               output_cursor = TileTotalLength E tile_w tile_h * channels,
               memory = m\<rparr>) (\<lambda>st.
     bindE (foldE (emit_lowpass tile_w tile_h planes_space (target_w st) (target_h st))
              (channels_down channels) (memory st, output_cursor st)) (\<lambda>mc.
       Inr (st\<lparr>output_cursor := snd mc, memory := fst mc\<rparr>)))"

text \<open>The build without a wavelet copies each plane to the output.\<close>

definition copy_planes :: "nat \<Rightarrow> nat \<Rightarrow> nat \<Rightarrow> nat \<Rightarrow> mem \<Rightarrow> error + mem" where
  "copy_planes tile_w tile_h channels planes_space m =
     for_loop channels (\<lambda>ch m.
       memcpy_ptr m (OutBuf, ch * (tile_w * tile_h))
         (InBuf, ((tile_w * tile_h) + planes_space) * ch) (tile_w * tile_h)) m"

definition DwtTransform ::
  "env \<Rightarrow> AkoSettings \<Rightarrow> nat \<Rightarrow> nat \<Rightarrow> nat \<Rightarrow> nat \<Rightarrow> mem \<Rightarrow> error + mem" where
  "DwtTransform E s tile_w tile_h channels planes_space m =
     (if AKO_WAVELET E = NoWavelet then copy_planes tile_w tile_h channels planes_space m
      else
        bindE (dwt_emit E s tile_w tile_h channels planes_space m) (\<lambda>st.
          if output_cursor st = 0 then Inr (memory st) else Inl AssertFailed))"


section \<open>The tile loop of the decoder (\<^verbatim>\<open>AkoDecode\<close>)\<close>

type_synonym byte = "8 word"

text \<open>
  The decoder's collaborators live in other files: \<^verbatim>\<open>FrameRead\<close> yields width, height,
  channels and tile size from the head of the input, \<^verbatim>\<open>sizeof(struct AkoHead)\<close> is the
  size of that head, and \<^verbatim>\<open>FormatToInterlacedU8RGB\<close> writes one tile into the image,
  given the tile size, the channels, the image width, the tile's memory and the offset of
  its destination in the image.
\<close>

record decode_env =
  FrameRead :: "byte list \<Rightarrow> nat \<times> nat \<times> nat \<times> nat"
  head_size :: nat
  FormatToInterlacedU8RGB ::
    "nat \<Rightarrow> nat \<Rightarrow> nat \<Rightarrow> byte list \<Rightarrow> nat \<Rightarrow> byte list \<Rightarrow> byte list"

definition sTilesNo :: "nat \<Rightarrow> nat \<Rightarrow> nat \<Rightarrow> error + nat" where
  "sTilesNo width height tile_size =
     (if tile_size = 0 then Inl DivByZero
      else
        (let w = width div tile_size;
             h = height div tile_size;
             w = (if width mod tile_size \<noteq> 0 then w + 1 else w);
             h = (if height mod tile_size \<noteq> 0 then h + 1 else h)
         in Inr (w * h)))"

record decode_state =
  col :: nat
  row :: nat
  blob :: nat
  tile_memory :: "byte list"
  image_memory :: "byte list"

text \<open>One turn of the loop ``Proccess tiles''; \<open>blob\<close> is the read position in the input.\<close>

definition decode_tile ::
  "decode_env \<Rightarrow> byte list \<Rightarrow> nat \<Rightarrow> nat \<Rightarrow> nat \<Rightarrow> nat \<Rightarrow> nat \<Rightarrow> decode_state
     \<Rightarrow> error + decode_state" where
  "decode_tile D inp width height channels tiles_size i st =
     (let tile_memory_size = 2 * tiles_size * tiles_size * channels in
      bindE (if (col st + tiles_size) > width \<or> (row st + tiles_size) > height then Inr st
             else if blob st + tile_memory_size \<le> length inp then
               (let tm = take tile_memory_size (drop (blob st) inp) in
                Inr (st\<lparr>tile_memory := tm,
                        blob := blob st + tile_memory_size,
                        image_memory :=
                          FormatToInterlacedU8RGB D tiles_size channels width tm
                            ((width * row st + col st) * channels) (image_memory st)\<rparr>))
             else Inl OutOfBounds) (\<lambda>st1.
        (let c = col st1 + tiles_size in
         if c \<ge> width then Inr (st1\<lparr>col := 0, row := row st1 + tiles_size\<rparr>)
         else Inr (st1\<lparr>col := c\<rparr>))))"

definition AkoDecode :: "decode_env \<Rightarrow> byte list \<Rightarrow> error + byte list \<times> nat \<times> nat \<times> nat" where
  "AkoDecode D inp =
     (let (width, height, channels, tiles_size) = FrameRead D inp in
      bindE (sTilesNo width height tiles_size) (\<lambda>tiles_no.
      bindE (for_loop tiles_no (decode_tile D inp width height channels tiles_size)
               \<lparr>col = 0, row = 0, blob = head_size D,
                tile_memory = replicate (2 * tiles_size * tiles_size * channels) 0,
                image_memory = replicate (width * height * channels) 0\<rparr>) (\<lambda>st.
        Inr (image_memory st, width, height, channels))))"


section \<open>Notions used to state the properties\<close>

text \<open>Two buffers of equal length that agree on every slot outside \<open>[lo, hi)\<close>.\<close>

definition agree_outside :: "nat \<Rightarrow> nat \<Rightarrow> 'a list \<Rightarrow> 'a list \<Rightarrow> bool" where
  "agree_outside lo hi t s \<longleftrightarrow>
     length t = length s \<and> (\<forall>m < length s. m < lo \<or> hi \<le> m \<longrightarrow> t ! m = s ! m)"

text \<open>
  What a step that stores through a pointer into buffer \<open>b\<close>, at offsets from \<open>lo\<close> up
  to \<open>hi\<close>, leaves of \<^verbatim>\<open>out\<close>: if the pointer is into \<^verbatim>\<open>in\<close>, all of it; if it is
  into \<^verbatim>\<open>out\<close>, every slot outside \<open>[lo, hi)\<close>.
\<close>

definition out_frame :: "buf \<Rightarrow> nat \<Rightarrow> nat \<Rightarrow> mem \<Rightarrow> mem \<Rightarrow> bool" where
  "out_frame b lo hi t m \<longleftrightarrow>
     (case b of InBuf \<Rightarrow> out_mem t = out_mem m
      | OutBuf \<Rightarrow> agree_outside lo hi (out_mem t) (out_mem m))"

text \<open>The values the three passes of \<^verbatim>\<open>sLift1d\<close> store, read off the loop bodies.\<close>

definition cdf53_value :: "nat \<Rightarrow> int16 list \<Rightarrow> nat \<Rightarrow> int16" where
  "cdf53_value len inp i =
     (if i < size_sub len 2
      then word_of_int (sint (inp ! (i * 2 + 1)) - cdiv (sint (inp ! (i * 2)) + sint (inp ! (i * 2 + 2))) 2)
      else word_of_int (sint (inp ! (i * 2 + 1)) - cdiv (sint (inp ! (i * 2)) + sint (inp ! (i * 2))) 2))"

definition dd97_value :: "nat \<Rightarrow> int16 list \<Rightarrow> nat \<Rightarrow> int16" where
  "dd97_value len inp i =
     (let even_i = inp ! (i * 2);
          even_il1 = (if i \<ge> 1 then inp ! (i * 2 - 2) else even_i);
          even_ip1 = (if i \<le> size_sub len 2 then inp ! (i * 2 + 2) else even_i);
          even_ip2 = (if i \<le> size_sub len 4 then inp ! (i * 2 + 4) else even_ip1)
      in word_of_int (sint (inp ! (i * 2 + 1)) -
           cdiv (- (sint even_il1 + sint even_ip2) + 9 * (sint even_i + sint even_ip1)) 16))"

definition hp_value :: "wavelet \<Rightarrow> nat \<Rightarrow> int16 list \<Rightarrow> int16 list \<Rightarrow> nat \<Rightarrow> int16" where
  "hp_value w len inp out i =
     (case w of
        NoWavelet \<Rightarrow> out ! (len + i)
      | Haar \<Rightarrow> word_of_int (sint (inp ! (i * 2 + 1)) - cdiv (sint (inp ! (i * 2)) + sint (inp ! (i * 2 + 1))) 2)
      | CDF53 \<Rightarrow> cdf53_value len inp i
      | DD97 \<Rightarrow> if len > 4 then dd97_value len inp i else cdf53_value len inp i)"

definition lp_value :: "wavelet \<Rightarrow> int16 list \<Rightarrow> (nat \<Rightarrow> int16) \<Rightarrow> nat \<Rightarrow> int16" where
  "lp_value w inp hp i =
     (if w \<noteq> Haar then
        (if i > 0 then word_of_int (sint (inp ! (i * 2)) + cdiv (sint (hp i) + sint (hp (i - 1))) 4)
         else word_of_int (sint (inp ! (i * 2)) + cdiv (sint (hp i) + sint (hp i)) 4))
      else word_of_int (cdiv (sint (inp ! (i * 2)) + sint (inp ! (i * 2 + 1))) 2))"

definition degrade_value :: "(real \<Rightarrow> real) \<Rightarrow> int16 \<Rightarrow> real \<Rightarrow> int16 \<Rightarrow> int16" where
  "degrade_value rnd q g v =
     word_of_int (cdiv (sint (if noise_gate_hit rnd q g v then 0 else v)) (sint q))"

text \<open>The number of nonzero highpass coefficients in an output of \<^verbatim>\<open>sLift1d\<close>
  (slots \<open>len\<close> to \<open>2 * len - 1\<close>).\<close>

definition nonzero_highpasses :: "nat \<Rightarrow> int16 list \<Rightarrow> nat" where
  "nonzero_highpasses len r = length (filter (\<lambda>v. v \<noteq> 0) (take len (drop len r)))"

text \<open>The CDF53 highpass formula with the boundary rule as the specification words it: the
  neighbour \<open>even[i + 1]\<close> is replaced by \<open>even[i]\<close> at the last index only.\<close>

definition cdf53_highpass_spec :: "nat \<Rightarrow> int16 list \<Rightarrow> nat \<Rightarrow> int16" where
  "cdf53_highpass_spec len inp i =
     (if i < len - 1
      then word_of_int (sint (inp ! (i * 2 + 1)) - cdiv (sint (inp ! (i * 2)) + sint (inp ! (i * 2 + 2))) 2)
      else word_of_int (sint (inp ! (i * 2 + 1)) - cdiv (sint (inp ! (i * 2)) + sint (inp ! (i * 2))) 2))"

text \<open>The 97DD highpass formula with the boundary rule as the specification words it: an
  even index outside \<open>0..len - 1\<close> is replaced by the nearest index inside.\<close>

definition clamp_even :: "nat \<Rightarrow> int16 list \<Rightarrow> int \<Rightarrow> int16" where
  "clamp_even len inp k = inp ! (2 * nat (max 0 (min k (int len - 1))))"

definition dd97_highpass_spec :: "nat \<Rightarrow> int16 list \<Rightarrow> nat \<Rightarrow> int16" where
  "dd97_highpass_spec len inp i =
     word_of_int (sint (inp ! (i * 2 + 1)) -
       cdiv (- (sint (clamp_even len inp (int i - 1)) + sint (clamp_even len inp (int i + 2)))
             + 9 * (sint (clamp_even len inp (int i)) + sint (clamp_even len inp (int i + 1)))) 16)"


text \<open>The sizes \<open>(target_w, target_h)\<close> of the successive lifts of a tile, as the loop
  ``Highpasses'' computes them, and the size the loop ends with.\<close>

function lift_sizes :: "nat \<Rightarrow> nat \<Rightarrow> (nat \<times> nat) list" where
  "lift_sizes w h =
     (if w > 2 \<and> h > 2 then (half_up w, half_up h) # lift_sizes (half_up w) (half_up h)
      else [])"
  by pat_completeness auto
termination
  by (relation "measure fst") (auto simp: half_up_def)

declare lift_sizes.simps [simp del]

definition final_size :: "nat \<Rightarrow> nat \<Rightarrow> nat \<times> nat" where
  "final_size w h = last ((w, h) # lift_sizes w h)"

text \<open>One record of the stream: three bands and one head. The stream of one channel: a
  record per lift and the last lowpass.\<close>

definition record_length :: "nat \<times> nat \<Rightarrow> nat" where
  "record_length sz = (fst sz * snd sz) * 3 + 1"

definition stream_length :: "nat \<Rightarrow> nat \<Rightarrow> nat" where
  "stream_length w h =
     sum_list (map record_length (lift_sizes w h))
       + fst (final_size w h) * snd (final_size w h)"

text \<open>
  A plane after a lift is a block of \<open>2 * tw\<close> columns and \<open>2 * th\<close> rows stored row by
  row from offset \<open>lp\<close>. \<open>quadrant_colmajor\<close> flattens, column by column, the
  \<open>tw \<times> th\<close> quadrant whose top left corner is at row \<open>r0\<close> and column \<open>c0\<close> of the
  block; \<open>quadrant_rowmajor\<close> flattens it row by row.
\<close>

definition quadrant_colmajor ::
  "nat \<Rightarrow> nat \<Rightarrow> int16 list \<Rightarrow> nat \<Rightarrow> nat \<Rightarrow> nat \<Rightarrow> int16 list" where
  "quadrant_colmajor tw th plane lp r0 c0 =
     concat (map (\<lambda>c. map (\<lambda>r. plane ! (lp + (r0 + r) * (tw * 2) + (c0 + c))) [0..<th]) [0..<tw])"

definition quadrant_rowmajor ::
  "nat \<Rightarrow> nat \<Rightarrow> int16 list \<Rightarrow> nat \<Rightarrow> nat \<Rightarrow> nat \<Rightarrow> int16 list" where
  "quadrant_rowmajor tw th plane lp r0 c0 =
     concat (map (\<lambda>r. map (\<lambda>c. plane ! (lp + (r0 + r) * (tw * 2) + (c0 + c))) [0..<tw]) [0..<th])"

text \<open>
  The stream of a tile as a list of coefficients. One record is the head followed by the
  bottom left, the top right and the bottom right quadrant of the plane, each column by
  column. \<open>level_records\<close> lists the records of one pass over the channels: the pass
  advances by the step of the driver, and the record of a channel is read off its plane in
  \<^verbatim>\<open>in\<close> as the lift of that channel has left it; a channel handled later comes earlier
  in the list. \<open>dwt_records\<close> lists the records of all the lifts, a later lift earlier in
  the list; \<open>dwt_lowpasses\<close> lists the lowpass quadrant of every channel, row by row, as
  the last lift has left it; \<open>dwt_stream\<close> is the lowpasses followed by the records. The
  coefficients of these lists are all read from \<^verbatim>\<open>in\<close>, none from \<^verbatim>\<open>out\<close>.
\<close>

definition highpass_record :: "nat \<Rightarrow> nat \<Rightarrow> int16 list \<Rightarrow> nat \<Rightarrow> int16 \<Rightarrow> int16 list" where
  "highpass_record tw th plane lp q =
     q # quadrant_colmajor tw th plane lp th 0
       @ quadrant_colmajor tw th plane lp 0 tw
       @ quadrant_colmajor tw th plane lp th tw"

primrec level_records ::
  "env \<Rightarrow> AkoSettings \<Rightarrow> nat \<Rightarrow> nat \<Rightarrow> nat \<Rightarrow> nat \<Rightarrow> nat \<Rightarrow> nat \<Rightarrow> nat \<Rightarrow> nat \<Rightarrow> nat list
     \<Rightarrow> mem \<times> nat \<Rightarrow> int16 list" where
  "level_records E s tile_w tile_h ps lft cw chh tw th [] mc = []"
| "level_records E s tile_w tile_h ps lft cw chh tw th (ch # chs) mc =
     (case lift_channel E s tile_w tile_h ps lft cw chh tw th ch mc of
        Inl e \<Rightarrow> []
      | Inr mc' \<Rightarrow>
          level_records E s tile_w tile_h ps lft cw chh tw th chs mc'
            @ highpass_record tw th (in_mem (fst mc')) (((tile_w * tile_h) + ps) * ch)
                (float_to_int16 (fst (quant_gate E s (TileTotalLifts E tile_w tile_h) lft ch))))"

function dwt_records ::
  "env \<Rightarrow> AkoSettings \<Rightarrow> nat \<Rightarrow> nat \<Rightarrow> nat \<Rightarrow> nat \<Rightarrow> dwt_state \<Rightarrow> int16 list" where
  "dwt_records E s tile_w tile_h channels planes_space st =
     (if target_w st > 2 \<and> target_h st > 2 then
        (let tw = half_up (target_w st);
             th = half_up (target_h st)
         in case foldE (lift_channel E s tile_w tile_h planes_space (lift st)
                          (target_w st) (target_h st) tw th)
                   (channels_down channels) (memory st, output_cursor st) of
              Inl e \<Rightarrow> []
            | Inr mc \<Rightarrow>
                dwt_records E s tile_w tile_h channels planes_space
                  \<lparr>lift = lift st + 1, target_w = tw, target_h = th,
                   output_cursor = snd mc, memory = fst mc\<rparr>
                @ level_records E s tile_w tile_h planes_space (lift st)
                    (target_w st) (target_h st) tw th
                    (channels_down channels) (memory st, output_cursor st))
      else [])"
  by pat_completeness auto
termination
  by (relation "measure (\<lambda>(E, s, tile_w, tile_h, channels, planes_space, st). target_w st)")
     (auto simp: half_up_def)

declare dwt_records.simps [simp del]

definition dwt_lowpasses :: "nat \<Rightarrow> nat \<Rightarrow> nat \<Rightarrow> nat \<Rightarrow> dwt_state \<Rightarrow> int16 list" where
  "dwt_lowpasses tile_w tile_h planes_space channels st =
     concat (map (\<lambda>ch. quadrant_rowmajor (target_w st) (target_h st) (in_mem (memory st))
                          (((tile_w * tile_h) + planes_space) * ch) 0 0) [0..<channels])"

definition dwt_stream ::
  "env \<Rightarrow> AkoSettings \<Rightarrow> nat \<Rightarrow> nat \<Rightarrow> nat \<Rightarrow> nat \<Rightarrow> mem \<Rightarrow> int16 list" where
  "dwt_stream E s tile_w tile_h channels planes_space m =
     (let st0 = \<lparr>lift = 0, target_w = tile_w, target_h = tile_h,
                 output_cursor = TileTotalLength E tile_w tile_h * channels, memory = m\<rparr>
      in case highpasses E s tile_w tile_h channels planes_space st0 of
           Inl e \<Rightarrow> []
         | Inr st \<Rightarrow> dwt_lowpasses tile_w tile_h planes_space channels st
                      @ dwt_records E s tile_w tile_h channels planes_space st0)"

text \<open>
  Two memory states have the same lengths: no step of the transform resizes a buffer.
  \<open>tile_fits\<close> says that the buffers are large enough for a tile: the output holds the
  stream of every channel, the input holds every plane with its spare room, the room of a
  plane holds the first lift's four quadrants, and the auxiliary memory holds one padded
  row and one padded column with its lifted copy.
\<close>

definition same_lengths :: "mem \<Rightarrow> mem \<Rightarrow> bool" where
  "same_lengths t m \<longleftrightarrow>
     length (aux_memory t) = length (aux_memory m)
     \<and> length (in_mem t) = length (in_mem m)
     \<and> length (out_mem t) = length (out_mem m)"

definition tile_fits :: "nat \<Rightarrow> nat \<Rightarrow> nat \<Rightarrow> nat \<Rightarrow> mem \<Rightarrow> bool" where
  "tile_fits tile_w tile_h channels planes_space m \<longleftrightarrow>
     channels * stream_length tile_w tile_h \<le> length (out_mem m)
     \<and> channels * ((tile_w * tile_h) + planes_space) \<le> length (in_mem m)
     \<and> 4 * (half_up tile_w * half_up tile_h) \<le> (tile_w * tile_h) + planes_space
     \<and> 2 * half_up tile_w \<le> length (aux_memory m)
     \<and> 4 * half_up tile_h \<le> length (aux_memory m)"

text \<open>An environment with exact \<^verbatim>\<open>float\<close> division, for runs on concrete tiles: kernel
  \<open>w\<close>, \<^verbatim>\<open>TileTotalLength\<close> returning \<open>n\<close>, and the gate left at the user's value.\<close>

definition exact_env :: "wavelet \<Rightarrow> nat \<Rightarrow> env" where
  "exact_env w n =
     \<lparr>AKO_WAVELET = w, float_round = id, mk3_gate = (\<lambda>user_g lift total_lifts. user_g),
      TileTotalLength = (\<lambda>tile_w tile_h. n), TileTotalLifts = (\<lambda>tile_w tile_h. 1)\<rparr>"

definition uniform_settings :: "real \<Rightarrow> real \<Rightarrow> AkoSettings" where
  "uniform_settings user_q user_g =
     \<lparr>quantization = (\<lambda>ch. user_q), noise_gate = (\<lambda>ch. user_g)\<rparr>"

text \<open>The number of tiles in one row of the grid, as \<^verbatim>\<open>sTilesNo\<close> counts them.\<close>

definition tiles_per_row :: "nat \<Rightarrow> nat \<Rightarrow> nat" where
  "tiles_per_row width tile_size =
     (if width mod tile_size \<noteq> 0 then width div tile_size + 1 else width div tile_size)"

text \<open>A decoder environment for runs on concrete inputs: a \<open>3 \<times> 2\<close> image with one
  channel and tiles of size 2, and a format step that stores the first byte of the tile
  at its destination.\<close>

definition skip_demo_env :: decode_env where
  "skip_demo_env =
     \<lparr>FrameRead = (\<lambda>inp. (3, 2, 1, 2)), head_size = 0,
      FormatToInterlacedU8RGB = (\<lambda>ts ch w tm off img. img[off := tm ! 0])\<rparr>"

section \<open>Loops and buffers\<close>

lemma bindE_Inr_iff: "bindE m f = Inr y \<longleftrightarrow> (\<exists>x. m = Inr x \<and> f x = Inr y)"
  by (cases m) (simp_all add: bindE_def)

lemma bindE_Inr [simp]: "bindE (Inr x) f = f x"
  by (simp add: bindE_def)

lemma bindE_Inl [simp]: "bindE (Inl e) f = Inl e"
  by (simp add: bindE_def)

lemma rd_Inr_iff: "rd xs i = Inr v \<longleftrightarrow> i < length xs \<and> v = xs ! i"
  by (auto simp: rd_def)

lemma wr_Inr_iff: "wr xs i v = Inr ys \<longleftrightarrow> i < length xs \<and> ys = xs[i := v]"
  by (auto simp: wr_def)

lemma foldE_append: "foldE body (xs @ ys) s = bindE (foldE body xs s) (foldE body ys)"
  by (induction xs arbitrary: s) (simp_all add: bindE_def split: sum.splits)

lemma for_loop_0 [simp]: "for_loop 0 body s = Inr s"
  by (simp add: for_loop_def)

lemma for_loop_Suc: "for_loop (Suc n) body s = bindE (for_loop n body s) (body n)"
  by (simp add: for_loop_def foldE_append bindE_def split: sum.splits)

lemma for_loop_inv:
  assumes "for_loop n body s = Inr s'"
    and "P 0 s"
    and "\<And>i t t'. i < n \<Longrightarrow> P i t \<Longrightarrow> body i t = Inr t' \<Longrightarrow> P (Suc i) t'"
  shows "P n s'"
  using assms
proof (induction n arbitrary: s')
  case 0
  then show ?case by simp
next
  case (Suc n)
  from Suc.prems(1) obtain t where t: "for_loop n body s = Inr t" and b: "body n t = Inr s'"
    by (auto simp: for_loop_Suc bindE_Inr_iff)
  have "P n t"
    by (rule Suc.IH [OF t Suc.prems(2)]) (rule Suc.prems(3), simp_all)
  with b show ?case by (intro Suc.prems(3) [of n t s']) simp_all
qed

lemma for_loop_total:
  assumes "P 0 s"
    and "\<And>i t. i < n \<Longrightarrow> P i t \<Longrightarrow> \<exists>t'. body i t = Inr t' \<and> P (Suc i) t'"
  shows "\<exists>s'. for_loop n body s = Inr s' \<and> P n s'"
  using assms
proof (induction n)
  case 0
  then show ?case by simp
next
  case (Suc n)
  have "\<exists>t. for_loop n body s = Inr t \<and> P n t"
    by (rule Suc.IH [OF Suc.prems(1)]) (rule Suc.prems(2), simp_all)
  then obtain t where t: "for_loop n body s = Inr t" "P n t" by blast
  from Suc.prems(2) [of n t] t(2) obtain t' where "body n t = Inr t'" "P (Suc n) t'" by auto
  with t show ?case by (simp add: for_loop_Suc)
qed

lemma for_loop_updates:
  assumes run: "for_loop n body s = Inr s'"
    and step: "\<And>i t t'. i < n \<Longrightarrow> body i t = Inr t' \<Longrightarrow> agree_outside off (off + i) t s
                 \<Longrightarrow> t' = t[off + i := val i] \<and> off + i < length t"
  shows "agree_outside off (off + n) s' s \<and> (n = 0 \<or> off + n \<le> length s)
           \<and> (\<forall>i<n. s' ! (off + i) = val i)"
proof -
  let ?P = "\<lambda>k t. agree_outside off (off + k) t s \<and> (k = 0 \<or> off + k \<le> length s)
                \<and> (\<forall>i<k. t ! (off + i) = val i)"
  have "?P n s'"
  proof (rule for_loop_inv [OF run, where P = ?P])
    show "?P 0 s" by (simp add: agree_outside_def)
  next
    fix i t t'
    assume i: "i < n" and P: "?P i t" and b: "body i t = Inr t'"
    from step [OF i b] P have t': "t' = t[off + i := val i]" and lt: "off + i < length t"
      by simp_all
    from P have len: "length t = length s" by (simp add: agree_outside_def)
    have 1: "agree_outside off (off + Suc i) t' s"
      using P t' by (auto simp: agree_outside_def)
    have 2: "\<forall>j<Suc i. t' ! (off + j) = val j"
      using P t' lt by (auto simp: less_Suc_eq nth_list_update)
    from 1 2 lt len show "?P (Suc i) t'" by simp
  qed
  then show ?thesis .
qed

subsection \<open>The passes of the kernel\<close>

lemma hp_haar_step:
  "hp_haar len inp i out = Inr t \<Longrightarrow>
     t = out[len + i := hp_value Haar len inp out0 i] \<and> len + i < length out"
  by (auto simp: hp_haar_def hp_value_def bindE_Inr_iff rd_Inr_iff wr_Inr_iff)

lemma hp_cdf53_step:
  "hp_cdf53 len inp i out = Inr t \<Longrightarrow>
     t = out[len + i := cdf53_value len inp i] \<and> len + i < length out"
  by (auto simp: hp_cdf53_def cdf53_value_def bindE_Inr_iff rd_Inr_iff wr_Inr_iff
           split: if_splits)

lemma hp_97dd_fallback_eq: "hp_97dd_fallback = hp_cdf53"
  by (intro ext) (simp add: hp_97dd_fallback_def hp_cdf53_def)

lemma hp_97dd_step:
  "hp_97dd len inp i out = Inr t \<Longrightarrow>
     t = out[len + i := dd97_value len inp i] \<and> len + i < length out"
  by (auto simp: hp_97dd_def dd97_value_def Let_def bindE_Inr_iff rd_Inr_iff wr_Inr_iff
           split: if_splits)

lemma hp_pass_result:
  assumes "hp_pass w len inp out = Inr out1"
  shows "agree_outside len (len + len) out1 out
           \<and> (\<forall>i<len. out1 ! (len + i) = hp_value w len inp out i)"
proof (cases w)
  case NoWavelet
  with assms show ?thesis by (simp add: hp_pass_def agree_outside_def hp_value_def)
next
  case Haar
  with assms have run: "for_loop len (hp_haar len inp) out = Inr out1"
    by (simp add: hp_pass_def)
  from for_loop_updates [OF run, where off = len and val = "hp_value Haar len inp out"]
    hp_haar_step [where ?out0.0 = out] Haar
  show ?thesis by blast
next
  case CDF53
  with assms have run: "for_loop len (hp_cdf53 len inp) out = Inr out1"
    by (simp add: hp_pass_def)
  from for_loop_updates [OF run, where off = len and val = "cdf53_value len inp"]
    hp_cdf53_step CDF53
  show ?thesis by (auto simp: hp_value_def)
next
  case DD97
  show ?thesis
  proof (cases "len > 4")
    case True
    with DD97 assms have run: "for_loop len (hp_97dd len inp) out = Inr out1"
      by (simp add: hp_pass_def)
    from for_loop_updates [OF run, where off = len and val = "dd97_value len inp"]
      hp_97dd_step DD97 True
    show ?thesis by (auto simp: hp_value_def)
  next
    case False
    with DD97 assms have run: "for_loop len (hp_cdf53 len inp) out = Inr out1"
      by (simp add: hp_pass_def hp_97dd_fallback_eq)
    from for_loop_updates [OF run, where off = len and val = "cdf53_value len inp"]
      hp_cdf53_step DD97 False
    show ?thesis by (auto simp: hp_value_def)
  qed
qed

lemma lp_step_result:
  assumes "lp_step w len inp i t = Inr t'" and "i < len"
    and "agree_outside 0 (0 + i) t out1"
  shows "t' = t[0 + i := lp_value w inp (\<lambda>j. out1 ! (len + j)) i] \<and> 0 + i < length t"
proof -
  from assms(3) have len: "length t = length out1"
    and same: "\<And>m. m < length out1 \<Longrightarrow> i \<le> m \<Longrightarrow> t ! m = out1 ! m"
    by (simp_all add: agree_outside_def)
  show ?thesis
  proof (cases "w = Haar")
    case True
    with assms(1) show ?thesis
      by (auto simp: lp_step_def lp_value_def bindE_Inr_iff rd_Inr_iff wr_Inr_iff)
  next
    case False
    show ?thesis
    proof (cases "i > 0")
      case True
      with False assms(1) have r: "len + i < length t" "len + i - 1 < length t" "i < length t"
        and t': "t' = t[i := word_of_int (sint (inp ! (i * 2)) +
                    cdiv (sint (t ! (len + i)) + sint (t ! (len + i - 1))) 4)]"
        by (auto simp: lp_step_def bindE_Inr_iff rd_Inr_iff wr_Inr_iff)
      from r len assms(2) True have "t ! (len + i) = out1 ! (len + i)"
        "t ! (len + i - 1) = out1 ! (len + (i - 1))"
        by (simp_all add: same)
      with t' r False True show ?thesis by (simp add: lp_value_def)
    next
      case i0: False
      with False assms(1) have r: "len + i < length t" "i < length t"
        and t': "t' = t[i := word_of_int (sint (inp ! (i * 2)) +
                    cdiv (sint (t ! (len + i)) + sint (t ! (len + i))) 4)]"
        by (auto simp: lp_step_def bindE_Inr_iff rd_Inr_iff wr_Inr_iff)
      from r len have "t ! (len + i) = out1 ! (len + i)"
        by (simp_all add: same)
      with t' r False i0 show ?thesis by (auto simp: lp_value_def)
    qed
  qed
qed

lemma degrade_step_result:
  assumes "degrade_step rnd q g len i t = Inr t'"
    and "agree_outside len (len + i) t out2"
  shows "t' = t[len + i := degrade_value rnd q g (out2 ! (len + i))] \<and> len + i < length t"
proof -
  from assms(2) have len: "length t = length out2"
    and same: "\<And>m. m < length out2 \<Longrightarrow> len + i \<le> m \<Longrightarrow> t ! m = out2 ! m"
    by (simp_all add: agree_outside_def)
  from assms(1) have lt: "len + i < length t"
    by (auto simp: degrade_step_def bindE_Inr_iff rd_Inr_iff)
  with len have v: "t ! (len + i) = out2 ! (len + i)" by (simp add: same)
  from assms(1) lt have "t' = t[len + i := degrade_value rnd q g (t ! (len + i))]"
    by (auto simp: degrade_step_def degrade_value_def bindE_Inr_iff rd_Inr_iff wr_Inr_iff
             split: if_splits)
  with v lt show ?thesis by simp
qed

lemma sLift1d_result:
  assumes "sLift1d w rnd q g len inp out = Inr r"
  shows "length r = length out"
    and "len = 0 \<or> 2 * len \<le> length out"
    and "\<And>i. i < len \<Longrightarrow> r ! i = lp_value w inp (hp_value w len inp out) i"
    and "\<And>i. i < len \<Longrightarrow> r ! (len + i) = degrade_value rnd q g (hp_value w len inp out i)"
    and "\<And>m. 2 * len \<le> m \<Longrightarrow> m < length out \<Longrightarrow> r ! m = out ! m"
proof -
  from assms obtain out1 out2 where
    hp: "hp_pass w len inp out = Inr out1"
    and lp: "for_loop len (lp_step w len inp) out1 = Inr out2"
    and dg: "for_loop len (degrade_step rnd q g len) out2 = Inr r"
    by (auto simp: sLift1d_def bindE_Inr_iff)
  note H = hp_pass_result [OF hp]
  have L0: "agree_outside 0 (0 + len) out2 out1 \<and> (len = 0 \<or> 0 + len \<le> length out1)
      \<and> (\<forall>i<len. out2 ! (0 + i) = lp_value w inp (\<lambda>j. out1 ! (len + j)) i)"
    by (rule for_loop_updates [OF lp]) (rule lp_step_result, assumption+)
  then have L: "agree_outside 0 len out2 out1"
    "\<forall>i<len. out2 ! i = lp_value w inp (\<lambda>j. out1 ! (len + j)) i"
    by simp_all
  have D0: "agree_outside len (len + len) r out2 \<and> (len = 0 \<or> len + len \<le> length out2)
      \<and> (\<forall>i<len. r ! (len + i) = degrade_value rnd q g (out2 ! (len + i)))"
    by (rule for_loop_updates [OF dg]) (rule degrade_step_result, assumption+)
  then have D: "agree_outside len (len + len) r out2" "len = 0 \<or> len + len \<le> length out2"
    "\<forall>i<len. r ! (len + i) = degrade_value rnd q g (out2 ! (len + i))"
    by simp_all
  from H have H1: "agree_outside len (len + len) out1 out"
    and H2: "\<forall>i<len. out1 ! (len + i) = hp_value w len inp out i"
    by simp_all
  from H1 L(1) D(1) have lens: "length out1 = length out" "length out2 = length out"
    "length r = length out"
    by (simp_all add: agree_outside_def)
  from lens show "length r = length out" by simp
  from D(2) lens show "len = 0 \<or> 2 * len \<le> length out" by auto
  have hpv: "lp_value w inp (\<lambda>j. out1 ! (len + j)) i = lp_value w inp (hp_value w len inp out) i"
    if "i < len" for i
  proof -
    from H2 that have a: "out1 ! (len + i) = hp_value w len inp out i" by simp
    from H2 that have b: "out1 ! (len + (i - 1)) = hp_value w len inp out (i - 1)" by simp
    show ?thesis by (simp only: lp_value_def a b)
  qed
  show "r ! i = lp_value w inp (hp_value w len inp out) i" if "i < len" for i
  proof -
    from D(2) that lens have "i < length out2" by auto
    with D(1) that have "r ! i = out2 ! i" by (simp add: agree_outside_def)
    with L(2) that hpv show ?thesis by simp
  qed
  show "r ! (len + i) = degrade_value rnd q g (hp_value w len inp out i)" if "i < len" for i
  proof -
    from D(2) that lens have "len + i < length out1" by auto
    with L(1) have "out2 ! (len + i) = out1 ! (len + i)" by (simp add: agree_outside_def)
    with D(3) H2 that show ?thesis by simp
  qed
  show "r ! m = out ! m" if "2 * len \<le> m" "m < length out" for m
  proof -
    from that lens D(1) have "r ! m = out2 ! m" by (simp add: agree_outside_def)
    also from that lens L(1) have "out2 ! m = out1 ! m" by (simp add: agree_outside_def)
    also from that lens H1 have "out1 ! m = out ! m" by (simp add: agree_outside_def)
    finally show ?thesis .
  qed
qed

lemma for_loop_length_total:
  assumes "length s = L"
    and "\<And>i t. i < n \<Longrightarrow> length t = L \<Longrightarrow> \<exists>t'. body i t = Inr t' \<and> length t' = L"
  shows "\<exists>s'. for_loop n body s = Inr s' \<and> length s' = L"
  by (rule for_loop_total [where P = "\<lambda>k t. length t = L"]) (use assms in auto)

lemma hp_pass_total:
  assumes "2 * len \<le> length out" "2 * len \<le> length inp" "len \<noteq> 1"
  shows "\<exists>out1. hp_pass w len inp out = Inr out1 \<and> length out1 = length out"
proof (cases w)
  case NoWavelet
  then show ?thesis by (simp add: hp_pass_def)
next
  case Haar
  have "\<exists>s'. for_loop len (hp_haar len inp) out = Inr s' \<and> length s' = length out"
    by (rule for_loop_length_total)
       (use assms in \<open>auto simp: hp_haar_def rd_def wr_def\<close>)
  with Haar show ?thesis by (simp add: hp_pass_def)
next
  case CDF53
  have "\<exists>s'. for_loop len (hp_cdf53 len inp) out = Inr s' \<and> length s' = length out"
    by (rule for_loop_length_total)
       (use assms in \<open>auto simp: hp_cdf53_def rd_def wr_def size_sub_def\<close>)
  with CDF53 show ?thesis by (simp add: hp_pass_def)
next
  case DD97
  have 1: "\<exists>s'. for_loop len (hp_cdf53 len inp) out = Inr s' \<and> length s' = length out"
    by (rule for_loop_length_total)
       (use assms in \<open>auto simp: hp_cdf53_def rd_def wr_def size_sub_def\<close>)
  have 2: "\<exists>s'. for_loop len (hp_97dd len inp) out = Inr s' \<and> length s' = length out"
    if "len > 4"
    by (rule for_loop_length_total)
       (use assms that in \<open>auto simp: hp_97dd_def rd_def wr_def size_sub_def\<close>)
  from 1 2 DD97 show ?thesis by (simp add: hp_pass_def hp_97dd_fallback_eq)
qed

lemma sLift1d_total:
  assumes "2 * len \<le> length out" "2 * len \<le> length inp" "len \<noteq> 1" "sint q \<noteq> 0"
  shows "\<exists>r. sLift1d w rnd q g len inp out = Inr r"
proof -
  from hp_pass_total [OF assms(1-3)] obtain out1 where
    1: "hp_pass w len inp out = Inr out1" "length out1 = length out" by blast
  have "\<exists>s'. for_loop len (lp_step w len inp) out1 = Inr s' \<and> length s' = length out"
    by (rule for_loop_length_total)
       (use assms 1 in \<open>auto simp: lp_step_def rd_def wr_def\<close>)
  then obtain out2 where
    2: "for_loop len (lp_step w len inp) out1 = Inr out2" "length out2 = length out" by blast
  have "\<exists>s'. for_loop len (degrade_step rnd q g len) out2 = Inr s' \<and> length s' = length out"
    by (rule for_loop_length_total)
       (use assms 2 in \<open>auto simp: degrade_step_def rd_def wr_def\<close>)
  with 1 2 show ?thesis by (auto simp: sLift1d_def)
qed

lemma cdiv_1 [simp]: "cdiv x 1 = x"
  by (simp add: cdiv_def)

lemma cdiv_0 [simp]: "cdiv 0 b = 0"
  by (simp add: cdiv_def)

lemma degrade_value_lossless [simp]: "degrade_value rnd 1 0 v = v"
  by (auto simp: degrade_value_def noise_gate_hit_def fdiv_def Let_def)

lemma word_plus_cancel:
  "(word_of_int (sint (x :: int16) + c) :: int16) = word_of_int (sint (y :: int16) + c) \<Longrightarrow> x = y"
  by simp

lemma word_minus_cancel:
  "(word_of_int (sint (x :: int16) - c) :: int16) = word_of_int (sint (y :: int16) - c) \<Longrightarrow> x = y"
  by simp

lemma cdf53_evens_odds:
  assumes ev: "\<And>j. j < len \<Longrightarrow> a ! (j * 2) = b ! (j * 2)"
    and "i < len" "len \<noteq> 1"
    and "cdf53_value len a i = cdf53_value len b i"
  shows "a ! (i * 2 + 1) = b ! (i * 2 + 1)"
proof (cases "i < size_sub len 2")
  case True
  with assms(2,3) have "i + 1 < len" by (auto simp: size_sub_def split: if_splits)
  from ev [OF this] have "a ! (i * 2 + 2) = b ! (i * 2 + 2)" by simp
  with assms(4) True ev [OF assms(2)] show ?thesis
    by (simp only: cdf53_value_def if_True) (rule word_minus_cancel)
next
  case False
  with assms(4) ev [OF assms(2)] show ?thesis
    by (simp only: cdf53_value_def if_False) (rule word_minus_cancel)
qed

lemma dd97_evens_odds:
  assumes ev: "\<And>j. j < len \<Longrightarrow> a ! (j * 2) = b ! (j * 2)"
    and "i < len" "len > 4"
    and "dd97_value len a i = dd97_value len b i"
  shows "a ! (i * 2 + 1) = b ! (i * 2 + 1)"
proof -
  have 0: "a ! (i * 2) = b ! (i * 2)" by (rule ev [OF assms(2)])
  have 1: "a ! (i * 2 - 2) = b ! (i * 2 - 2)" if "i \<ge> 1"
  proof -
    from that assms(2) have "i - 1 < len" by simp
    from ev [OF this] that show ?thesis by (simp add: diff_mult_distrib)
  qed
  have 2: "a ! (i * 2 + 2) = b ! (i * 2 + 2)" if "i \<le> size_sub len 2"
  proof -
    from that assms(3) have "i + 1 < len" by (simp add: size_sub_def)
    from ev [OF this] show ?thesis by simp
  qed
  have 3: "a ! (i * 2 + 4) = b ! (i * 2 + 4)" if "i \<le> size_sub len 4"
  proof -
    from that assms(3) have "i + 2 < len" by (simp add: size_sub_def)
    moreover have "(i + 2) * 2 = i * 2 + 4" by simp
    ultimately show ?thesis using ev [of "i + 2"] by (simp only:)
  qed
  have "(- (sint (if i \<ge> 1 then a ! (i * 2 - 2) else a ! (i * 2))
            + sint (if i \<le> size_sub len 4 then a ! (i * 2 + 4)
                    else if i \<le> size_sub len 2 then a ! (i * 2 + 2) else a ! (i * 2)))
          + 9 * (sint (a ! (i * 2))
            + sint (if i \<le> size_sub len 2 then a ! (i * 2 + 2) else a ! (i * 2))))
      = (- (sint (if i \<ge> 1 then b ! (i * 2 - 2) else b ! (i * 2))
            + sint (if i \<le> size_sub len 4 then b ! (i * 2 + 4)
                    else if i \<le> size_sub len 2 then b ! (i * 2 + 2) else b ! (i * 2)))
          + 9 * (sint (b ! (i * 2))
            + sint (if i \<le> size_sub len 2 then b ! (i * 2 + 2) else b ! (i * 2))))"
    using 0 1 2 3 by simp
  with assms(4) show ?thesis
    by (simp only: dd97_value_def Let_def) (rule word_minus_cancel, simp)
qed

lemma lp_evens:
  assumes "w \<noteq> Haar"
    and "\<And>j. j < len \<Longrightarrow> ha j = hb j"
    and "i < len"
    and "lp_value w a ha i = lp_value w b hb i"
  shows "a ! (i * 2) = b ! (i * 2)"
proof -
  from assms(2,3) have "ha i = hb i" "ha (i - 1) = hb (i - 1)" by simp_all
  with assms(1,4) show ?thesis
    by (cases "i > 0") (auto simp: lp_value_def dest: word_plus_cancel)
qed

lemma sLift1d_lossless_injective:
  assumes w: "w = CDF53 \<or> w = DD97"
    and len: "len \<noteq> 1"
    and la: "length a = 2 * len" and lb: "length b = 2 * len"
    and ra: "sLift1d w rnd 1 0 len a out = Inr r"
    and rb: "sLift1d w rnd 1 0 len b out = Inr r"
  shows "a = b"
proof -
  note A = sLift1d_result [OF ra] and B = sLift1d_result [OF rb]
  have hp: "hp_value w len a out j = hp_value w len b out j" if "j < len" for j
    using A(4) [OF that] B(4) [OF that] by simp
  have ev: "a ! (j * 2) = b ! (j * 2)" if "j < len" for j
  proof (rule lp_evens [where w = w and len = len])
    show "w \<noteq> Haar" using w by auto
    show "hp_value w len a out k = hp_value w len b out k" if "k < len" for k
      by (rule hp [OF that])
    show "j < len" by (rule that)
    show "lp_value w a (hp_value w len a out) j = lp_value w b (hp_value w len b out) j"
      using A(3) [OF that] B(3) [OF that] by simp
  qed
  have od: "a ! (j * 2 + 1) = b ! (j * 2 + 1)" if "j < len" for j
  proof (cases "w = DD97 \<and> len > 4")
    case True
    with hp [OF that] have "dd97_value len a j = dd97_value len b j"
      by (simp add: hp_value_def)
    with True that ev show ?thesis by (intro dd97_evens_odds [where len = len]) simp_all
  next
    case False
    with hp [OF that] w have "cdf53_value len a j = cdf53_value len b j"
      by (auto simp: hp_value_def)
    with len that ev show ?thesis by (intro cdf53_evens_odds [where len = len]) simp_all
  qed
  show ?thesis
  proof (rule nth_equalityI)
    show "length a = length b" using la lb by simp
    fix k assume "k < length a"
    with la have k: "k div 2 < len" by simp
    show "a ! k = b ! k"
    proof (cases "even k")
      case True
      then have "k = (k div 2) * 2" by simp
      with ev [OF k] show ?thesis by metis
    next
      case False
      then have "k = (k div 2) * 2 + 1" by (simp add: odd_two_times_div_two_succ mult.commute)
      with od [OF k] show ?thesis by metis
    qed
  qed
qed

section \<open>Properties of the 1D lift kernel\<close>

lemma lp_step_97dd: "lp_step DD97 len inp = lp_step CDF53 len inp"
  by (rule ext)+ (simp add: lp_step_def)

lemma noise_gate_hit_mono:
  assumes "mono rnd" "1 \<le> sint q" "g1 \<le> g2" "noise_gate_hit rnd q g1 v"
  shows "noise_gate_hit rnd q g2 v"
proof -
  let ?q = "real_of_int (sint q)"
  from assms(2) have "0 < sint q" by simp
  then have q: "0 < ?q" by (rule iffD2 [OF of_int_0_less_iff])
  from assms(3) q have "g1 / ?q \<le> g2 / ?q" "(- g2) / ?q \<le> (- g1) / ?q"
    by (simp_all add: divide_right_mono)
  with assms(1) have "rnd (g1 / ?q) \<le> rnd (g2 / ?q)" "rnd ((- g2) / ?q) \<le> rnd ((- g1) / ?q)"
    by (simp_all add: monoD)
  with assms(4) show ?thesis
    unfolding noise_gate_hit_def fdiv_def Let_def by linarith
qed

lemma degrade_value_mono:
  assumes "mono rnd" "1 \<le> sint q" "g1 \<le> g2" "degrade_value rnd q g2 v \<noteq> 0"
  shows "degrade_value rnd q g1 v \<noteq> 0"
proof (cases "noise_gate_hit rnd q g1 v")
  case True
  from noise_gate_hit_mono [OF assms(1-3) True] assms(4) show ?thesis
    by (simp add: degrade_value_def)
next
  case False
  with assms(4) show ?thesis
    by (cases "noise_gate_hit rnd q g2 v") (simp_all add: degrade_value_def)
qed

lemma filter_length_mono:
  assumes "length xs = length ys" and "\<forall>i<length xs. P (ys ! i) \<longrightarrow> Q (xs ! i)"
  shows "length (filter P ys) \<le> length (filter Q xs)"
  using assms
proof (induction xs ys rule: list_induct2)
  case Nil
  then show ?case by simp
next
  case (Cons x xs y ys)
  from Cons.prems have "\<forall>i<length xs. P (ys ! i) \<longrightarrow> Q (xs ! i)" by fastforce
  with Cons.IH have "length (filter P ys) \<le> length (filter Q xs)" by simp
  moreover from Cons.prems have "P y \<longrightarrow> Q x" by fastforce
  ultimately show ?case by simp
qed

lemma sLift1d_gate_independent:
  assumes "sLift1d w rnd q g1 len inp out = Inr r1" and "sint q \<noteq> 0"
  shows "\<exists>r2. sLift1d w rnd q g2 len inp out = Inr r2"
proof -
  from assms obtain out1 out2 where
    hp: "hp_pass w len inp out = Inr out1"
    and lp: "for_loop len (lp_step w len inp) out1 = Inr out2"
    and dg: "for_loop len (degrade_step rnd q g1 len) out2 = Inr r1"
    by (auto simp: sLift1d_def bindE_Inr_iff)
  have "agree_outside len (len + len) r1 out2 \<and> (len = 0 \<or> len + len \<le> length out2)
      \<and> (\<forall>i<len. r1 ! (len + i) = degrade_value rnd q g1 (out2 ! (len + i)))"
    by (rule for_loop_updates [OF dg]) (rule degrade_step_result, assumption+)
  then have sz: "len = 0 \<or> len + len \<le> length out2" by simp
  have "\<exists>s'. for_loop len (degrade_step rnd q g2 len) out2 = Inr s' \<and> length s' = length out2"
    by (rule for_loop_length_total)
       (use assms(2) sz in \<open>auto simp: degrade_step_def rd_def wr_def\<close>)
  with hp lp show ?thesis by (auto simp: sLift1d_def)
qed

text \<open>
  Claim C2, as stated, for the Haar kernel: with \<open>q = 1\<close> and \<open>g = 0\<close> the inputs
  \<open>(even, odd) = (1, 0)\<close> and \<open>(0, 0)\<close> give the same lowpass and highpass, so the Haar
  kernel \<open>hp = odd - (even + odd) / 2\<close>, \<open>lp = (even + odd) / 2\<close> loses the parity of
  \<open>even + odd\<close> and is not information-preserving.
\<close>

theorem haar_lossless_counterexample:
  "sLift1d Haar id 1 0 1 [1, 0] [0, 0] = Inr [0, 0]
   \<and> sLift1d Haar id 1 0 1 [0, 0] [0, 0] = Inr [0, 0]
   \<and> [1, 0] \<noteq> ([0, 0] :: int16 list)"
  by code_simp

text \<open>
  Claim C2, amended: for the kernels CDF53 and 97DD, every length \<open>len\<close> other than 1
  (for which the CDF53 highpass reads one sample past its \<open>2 * len\<close> inputs), quantization
  step \<open>q = 1\<close> and noise gate \<open>g = 0\<close>, \<^verbatim>\<open>sLift1d\<close> returns a result on every input of
  \<open>2 * len\<close> samples, and two inputs with the same result are equal: the lowpass and
  highpass determine the even and odd samples.
\<close>

theorem sLift1d_lossless:
  assumes "w = CDF53 \<or> w = DD97" and "len \<noteq> 1"
    and "length a = 2 * len" and "length b = 2 * len" and "2 * len \<le> length out"
  shows "(\<exists>r. sLift1d w rnd 1 0 len a out = Inr r)
         \<and> (sLift1d w rnd 1 0 len a out = sLift1d w rnd 1 0 len b out \<longrightarrow> a = b)"
proof
  show ex: "\<exists>r. sLift1d w rnd 1 0 len a out = Inr r"
    by (rule sLift1d_total) (use assms in simp_all)
  show "sLift1d w rnd 1 0 len a out = sLift1d w rnd 1 0 len b out \<longrightarrow> a = b"
  proof
    assume eq: "sLift1d w rnd 1 0 len a out = sLift1d w rnd 1 0 len b out"
    from ex obtain r where r: "sLift1d w rnd 1 0 len a out = Inr r" by blast
    with eq have "sLift1d w rnd 1 0 len b out = Inr r" by simp
    with r assms show "a = b" by (intro sLift1d_lossless_injective [where w = w and len = len])
  qed
qed

theorem sLift1d_lossless_witness:
  "sLift1d CDF53 id 1 0 2 [1, 2, 3, 4] [0, 0, 0, 0] \<noteq> sLift1d CDF53 id 1 0 2 [1, 2, 3, 5] [0, 0, 0, 0]"
  using sLift1d_lossless [of CDF53 2 "[1, 2, 3, 4]" "[1, 2, 3, 5]" "[0, 0, 0, 0]" id]
  by simp

text \<open>Where the highpass passes agree with the boundary rules of the specification:
  CDF53 at every index but \<open>len - 2\<close>, 97DD at every index but \<open>len - 3\<close>.\<close>

lemma cdf53_value_eq_spec:
  assumes "2 \<le> len" "i < len" "i + 2 \<noteq> len"
  shows "cdf53_value len inp i = cdf53_highpass_spec len inp i"
  using assms by (auto simp: cdf53_value_def cdf53_highpass_spec_def size_sub_def)

lemma cdf53_value_at_len_minus_2:
  assumes "2 \<le> len"
  shows "cdf53_value len inp (len - 2) =
           word_of_int (sint (inp ! ((len - 2) * 2 + 1))
             - cdiv (sint (inp ! ((len - 2) * 2)) + sint (inp ! ((len - 2) * 2))) 2)"
  using assms by (simp add: cdf53_value_def size_sub_def)

lemma dd97_value_eq_spec:
  assumes "4 < len" "i < len" "i + 3 \<noteq> len"
  shows "dd97_value len inp i = dd97_highpass_spec len inp i"
proof -
  have 1: "clamp_even len inp (int i) = inp ! (i * 2)"
    using assms by (simp add: clamp_even_def mult.commute)
  have 2: "clamp_even len inp (int i - 1) = (if i \<ge> 1 then inp ! (i * 2 - 2) else inp ! (i * 2))"
  proof (cases "i \<ge> 1")
    case True
    with assms have "nat (max 0 (min (int i - 1) (int len - 1))) = i - 1" by simp
    with True show ?thesis by (simp add: clamp_even_def diff_mult_distrib2 mult.commute)
  next
    case False
    then have "i = 0" by simp
    then show ?thesis by (simp add: clamp_even_def)
  qed
  have 3: "clamp_even len inp (int i + 1)
             = (if i \<le> size_sub len 2 then inp ! (i * 2 + 2) else inp ! (i * 2))"
  proof (cases "i \<le> len - 2")
    case True
    with assms have "nat (max 0 (min (int i + 1) (int len - 1))) = i + 1" by simp
    with True assms show ?thesis by (simp add: clamp_even_def size_sub_def mult.commute)
  next
    case False
    with assms have "nat (max 0 (min (int i + 1) (int len - 1))) = i" by simp
    with False assms show ?thesis by (simp add: clamp_even_def size_sub_def mult.commute)
  qed
  have 4: "clamp_even len inp (int i + 2)
             = (if i \<le> size_sub len 4 then inp ! (i * 2 + 4)
                else if i \<le> size_sub len 2 then inp ! (i * 2 + 2) else inp ! (i * 2))"
  proof -
    consider "i \<le> len - 4" | "\<not> i \<le> len - 4" "i \<le> len - 2" | "\<not> i \<le> len - 2"
      by linarith
    then show ?thesis
    proof cases
      case 1
      with assms have idx: "nat (max 0 (min (int i + 2) (int len - 1))) = i + 2" by simp
      have "clamp_even len inp (int i + 2) = inp ! (2 * (i + 2))"
        by (simp only: clamp_even_def idx)
      also have "2 * (i + 2) = i * 2 + 4" by simp
      finally show ?thesis using 1 assms by (simp add: size_sub_def)
    next
      case 2
      with assms have idx: "nat (max 0 (min (int i + 2) (int len - 1))) = i + 1" by simp
      have "clamp_even len inp (int i + 2) = inp ! (2 * (i + 1))"
        by (simp only: clamp_even_def idx)
      also have "2 * (i + 1) = i * 2 + 2" by simp
      finally show ?thesis using 2 assms by (simp add: size_sub_def)
    next
      case 3
      with assms have idx: "nat (max 0 (min (int i + 2) (int len - 1))) = i" by simp
      have "clamp_even len inp (int i + 2) = inp ! (2 * i)"
        by (simp only: clamp_even_def idx)
      also have "2 * i = i * 2" by simp
      finally have c: "clamp_even len inp (int i + 2) = inp ! (i * 2)" .
      from 3 have "\<not> i \<le> len - 4" by linarith
      with 3 c assms show ?thesis by (simp add: size_sub_def)
    qed
  qed
  show ?thesis
    unfolding dd97_value_def dd97_highpass_spec_def Let_def 1 2 3 4 by simp
qed

text \<open>
  Claim C5: in the CDF53 highpass pass the neighbour \<open>even[i + 1]\<close> is to be replaced by
  \<open>even[i]\<close> at the last index \<open>i = len - 1\<close> only. The loop tests \<open>i < len - 2\<close>, so the
  replacement also happens at \<open>i = len - 2\<close>: for \<open>len = 3\<close> and the even samples
  \<open>0, 0, 10\<close> (odd samples 0) the kernel stores the highpass \<open>0\<close> at index 1, where the
  rule of the claim gives \<open>0 - (0 + 10) / 2 = -5\<close>.
\<close>

theorem cdf53_fake_last_value_at_two_indices:
  "sLift1d CDF53 id 1 0 3 [0, 0, 0, 0, 10, 0] [0, 0, 0, 0, 0, 0] = Inr [0, 0, 8, 0, 0, - 10]
   \<and> cdf53_highpass_spec 3 [0, 0, 0, 0, 10, 0] 1 = - 5"
  by code_simp

text \<open>
  Claim C6: in the 97DD highpass pass an even sample outside \<open>0..len - 1\<close> is to be replaced
  by the nearest one inside, and \<open>even[i + 2]\<close> is to be used wherever it is in range. The
  loop tests \<open>i \<le> len - 4\<close> for \<open>even[i + 2]\<close>, so at \<open>i = len - 3\<close> it uses
  \<open>even[i + 1]\<close> although \<open>even[i + 2] = even[len - 1]\<close> is in range: for \<open>len = 5\<close> and
  the even samples \<open>0, 0, 0, 0, 16\<close> (odd samples 0) the kernel stores the highpass \<open>0\<close> at
  index 2, where the rule of the claim gives \<open>0 - (-(0 + 16) + 9 * (0 + 0)) / 16 = 1\<close>.
\<close>

theorem dd97_second_neighbour_dropped_early:
  "sLift1d DD97 id 1 0 5 [0, 0, 0, 0, 0, 0, 0, 0, 16, 0] [0, 0, 0, 0, 0, 0, 0, 0, 0, 0]
     = Inr [0, 0, 0, - 2, 10, 0, 0, 0, - 8, - 17]
   \<and> dd97_highpass_spec 5 [0, 0, 0, 0, 0, 0, 0, 0, 16, 0] 2 = 1"
  by code_simp

text \<open>
  Claim C7: for every input with \<open>len \<le> 4\<close>, every \<open>q\<close> and every \<open>g\<close>, the 97DD kernel
  returns exactly what the CDF53 kernel returns on the same input (the same output buffer,
  or the same error).
\<close>

theorem dd97_fallback_is_cdf53:
  "len \<le> 4 \<Longrightarrow> sLift1d DD97 rnd q g len inp out = sLift1d CDF53 rnd q g len inp out"
  by (simp add: sLift1d_def hp_pass_def hp_97dd_fallback_eq lp_step_97dd)

theorem dd97_fallback_is_cdf53_witness:
  "(3::nat) \<le> 4 \<and> sLift1d DD97 id 2 3 3 [5, 1, 7, 2, 9, 4] [0, 0, 0, 0, 0, 0]
      = sLift1d CDF53 id 2 3 3 [5, 1, 7, 2, 9, 4] [0, 0, 0, 0, 0, 0]"
  using dd97_fallback_is_cdf53 [of 3 id 2 3 "[5, 1, 7, 2, 9, 4]" "[0, 0, 0, 0, 0, 0]"]
  by simp

text \<open>
  Claim C8: for a quantization step \<open>q \<ge> 1\<close>, a fixed input and two noise gates
  \<open>g1 \<le> g2\<close>, whenever \<^verbatim>\<open>sLift1d\<close> returns a result with \<open>g1\<close> it returns one with
  \<open>g2\<close>, and the result with \<open>g2\<close> has at most as many nonzero highpass coefficients as the
  result with \<open>g1\<close>. The rounding of the \<^verbatim>\<open>float\<close> divisions is any monotone function.
\<close>

theorem noise_gate_monotone:
  assumes "mono rnd" and "1 \<le> sint q" and "g1 \<le> g2"
    and "sLift1d w rnd q g1 len inp out = Inr r1"
  shows "\<exists>r2. sLift1d w rnd q g2 len inp out = Inr r2
              \<and> nonzero_highpasses len r2 \<le> nonzero_highpasses len r1"
proof -
  from assms(2) have q: "sint q \<noteq> 0" by simp
  from sLift1d_gate_independent [OF assms(4) q] obtain r2 where
    r2: "sLift1d w rnd q g2 len inp out = Inr r2" by blast
  note A = sLift1d_result [OF assms(4)] and B = sLift1d_result [OF r2]
  let ?xs = "take len (drop len r1)" and ?ys = "take len (drop len r2)"
  have "nonzero_highpasses len r2 \<le> nonzero_highpasses len r1"
  proof (cases "len = 0")
    case True
    then show ?thesis by (simp add: nonzero_highpasses_def)
  next
    case False
    with A(1,2) B(1) have len: "length ?xs = len" "length ?ys = len" by simp_all
    have "\<forall>i<length ?xs. ?ys ! i \<noteq> 0 \<longrightarrow> ?xs ! i \<noteq> 0"
    proof (intro allI impI)
      fix i assume i: "i < length ?xs" and nz: "?ys ! i \<noteq> 0"
      from i len have il: "i < len" by simp
      with False A(1,2) B(1) have "?xs ! i = r1 ! (len + i)" "?ys ! i = r2 ! (len + i)"
        by simp_all
      with A(4) [OF il] B(4) [OF il] nz degrade_value_mono [OF assms(1-3)]
      show "?xs ! i \<noteq> 0" by simp
    qed
    with len have "length (filter (\<lambda>v. v \<noteq> 0) ?ys) \<le> length (filter (\<lambda>v. v \<noteq> 0) ?xs)"
      by (intro filter_length_mono) simp_all
    then show ?thesis by (simp add: nonzero_highpasses_def)
  qed
  with r2 show ?thesis by blast
qed

theorem noise_gate_monotone_witness:
  "sLift1d CDF53 id 2 0 2 [0, 7, 0, 3] [0, 0, 0, 0] = Inr [3, 2, 3, 1]
   \<and> sLift1d CDF53 id 2 4 2 [0, 7, 0, 3] [0, 0, 0, 0] = Inr [3, 2, 3, 0]
   \<and> nonzero_highpasses 2 [3, 2, 3, 0] \<le> nonzero_highpasses 2 [3, 2, 3, 1]"
proof -
  have 1: "sLift1d CDF53 id 2 0 2 [0, 7, 0, 3] [0, 0, 0, 0] = Inr [3, 2, 3, 1]"
    by code_simp
  have 2: "sLift1d CDF53 id 2 4 2 [0, 7, 0, 3] [0, 0, 0, 0] = Inr [3, 2, 3, 0]"
    by code_simp
  have m: "mono (id :: real \<Rightarrow> real)" by (simp add: mono_def)
  have q: "1 \<le> sint (2 :: int16)" by simp
  have g: "(0 :: real) \<le> 4" by simp
  from noise_gate_monotone [OF m q g 1] 1 2 show ?thesis by simp
qed

section \<open>Flattening and emission\<close>

lemma for_loop_blocks:
  assumes run: "for_loop n body s = Inr s'"
    and step: "\<And>i t t'. i < n \<Longrightarrow> body i t = Inr t' \<Longrightarrow> agree_outside off (off + i * k) t s
                 \<Longrightarrow> agree_outside (off + i * k) (off + i * k + k) t' t
                     \<and> (k = 0 \<or> off + i * k + k \<le> length t)
                     \<and> (\<forall>j<k. t' ! (off + i * k + j) = val i j)"
  shows "agree_outside off (off + n * k) s' s \<and> (n * k = 0 \<or> off + n * k \<le> length s)
           \<and> (\<forall>i<n. \<forall>j<k. s' ! (off + i * k + j) = val i j)"
proof -
  let ?P = "\<lambda>m t. agree_outside off (off + m * k) t s \<and> (m * k = 0 \<or> off + m * k \<le> length s)
                \<and> (\<forall>i<m. \<forall>j<k. t ! (off + i * k + j) = val i j)"
  have "?P n s'"
  proof (rule for_loop_inv [OF run, where P = ?P])
    show "?P 0 s" by (simp add: agree_outside_def)
  next
    fix i t t'
    assume i: "i < n" and P: "?P i t" and b: "body i t = Inr t'"
    from P have ag: "agree_outside off (off + i * k) t s" by simp
    then have len: "length t = length s" by (simp add: agree_outside_def)
    from step [OF i b ag] have
      blk: "agree_outside (off + i * k) (off + i * k + k) t' t"
      and sz: "k = 0 \<or> off + i * k + k \<le> length t"
      and vals: "\<forall>j<k. t' ! (off + i * k + j) = val i j"
      by simp_all
    from blk have len': "length t' = length t" by (simp add: agree_outside_def)
    have 1: "agree_outside off (off + Suc i * k) t' s"
      unfolding agree_outside_def
    proof (intro conjI allI impI)
      show "length t' = length s" using len len' by simp
      fix m assume m: "m < length s" "m < off \<or> off + Suc i * k \<le> m"
      then have "m < off + i * k \<or> off + i * k + k \<le> m" by auto
      with blk m len have "t' ! m = t ! m" by (auto simp: agree_outside_def)
      moreover from m ag have "t ! m = s ! m" by (auto simp: agree_outside_def)
      ultimately show "t' ! m = s ! m" by simp
    qed
    have 2: "Suc i * k = 0 \<or> off + Suc i * k \<le> length s"
      using sz len by (auto simp: add.assoc)
    have 3: "\<forall>i'<Suc i. \<forall>j<k. t' ! (off + i' * k + j) = val i' j"
    proof (intro allI impI)
      fix i' j assume i': "i' < Suc i" and j: "j < k"
      show "t' ! (off + i' * k + j) = val i' j"
      proof (cases "i' = i")
        case True
        with vals j show ?thesis by simp
      next
        case False
        with i' have lt: "i' < i" by simp
        then have "Suc i' * k \<le> i * k" by (intro mult_le_mono1) simp
        with j have in_old: "off + i' * k + j < off + i * k" by simp
        from sz j len have "off + i * k \<le> length s" by auto
        with in_old have "off + i' * k + j < length t" using len by simp
        with blk in_old have "t' ! (off + i' * k + j) = t ! (off + i' * k + j)"
          by (simp add: agree_outside_def)
        with P lt j show ?thesis by simp
      qed
    qed
    from 1 2 3 show "?P (Suc i) t'" by blast
  qed
  then show ?thesis .
qed

lemma agree_outside_block:
  assumes "agree_outside a (a + n) t s" and "n = 0 \<or> a + n \<le> length s"
    and "\<forall>j<n. t ! (a + j) = f j"
  shows "t = take a s @ map f [0..<n] @ drop (a + n) s"
proof (cases "n = 0")
  case True
  have "t ! m = s ! m" if "m < length s" for m
    using assms(1) True that by (cases "m < a") (auto simp: agree_outside_def)
  moreover from assms(1) have "length t = length s" by (simp add: agree_outside_def)
  ultimately have "t = s" by (auto intro: nth_equalityI)
  with True show ?thesis by simp
next
  case False
  with assms(2) have le: "a + n \<le> length s" by simp
  from assms(1) have len: "length t = length s" by (simp add: agree_outside_def)
  show ?thesis
  proof (rule nth_equalityI)
    show "length t = length (take a s @ map f [0..<n] @ drop (a + n) s)"
      using le len by simp
    fix m assume m: "m < length t"
    consider "m < a" | "a \<le> m" "m < a + n" | "a + n \<le> m" by linarith
    then show "t ! m = (take a s @ map f [0..<n] @ drop (a + n) s) ! m"
    proof cases
      case 1
      with assms(1) m le len show ?thesis by (simp add: agree_outside_def nth_append)
    next
      case 2
      then have lt: "m - a < n" by simp
      with assms(3) have "t ! (a + (m - a)) = f (m - a)" by blast
      with 2 have tm: "t ! m = f (m - a)" by simp
      have la: "length (take a s) = a" using le by simp
      have "(take a s @ map f [0..<n] @ drop (a + n) s) ! m
              = (map f [0..<n] @ drop (a + n) s) ! (m - a)"
        using 2 la by (simp add: nth_append)
      also have "\<dots> = f (m - a)" using lt by (simp add: nth_append)
      finally show ?thesis using tm by simp
    next
      case 3
      with assms(1) m len have tm: "t ! m = s ! m" by (simp add: agree_outside_def)
      have la: "length (take a s @ map f [0..<n]) = a + n" using le by simp
      have "(take a s @ map f [0..<n] @ drop (a + n) s) ! m
              = ((take a s @ map f [0..<n]) @ drop (a + n) s) ! m" by simp
      also have "\<dots> = drop (a + n) s ! (m - (a + n))"
        using 3 la by (simp only: nth_append) simp
      also have "\<dots> = s ! m" using 3 m len by simp
      finally show ?thesis using tm by simp
    qed
  qed
qed

lemma concat_map_upt:
  "concat (map (\<lambda>c. map (g c) [0..<h]) [0..<w]) = map (\<lambda>j. g (j div h) (j mod h)) [0..<w * h]"
proof (induction w)
  case 0
  then show ?case by simp
next
  case (Suc w)
  have "[0..<Suc w * h] = [0..<w * h + h]" by (simp add: add.commute)
  also have "\<dots> = [0..<w * h] @ [w * h..<w * h + h]"
    by (rule upt_add_eq_append) simp
  also have "[w * h..<w * h + h] = map (\<lambda>r. r + w * h) [0..<h]"
    by (simp add: map_add_upt add.commute)
  finally have "[0..<Suc w * h] = [0..<w * h] @ map (\<lambda>r. r + w * h) [0..<h]" .
  moreover have "map (\<lambda>j. g (j div h) (j mod h)) (map (\<lambda>r. r + w * h) [0..<h]) = map (g w) [0..<h]"
    by (simp add: comp_def)
  ultimately show ?case using Suc by simp
qed

lemma copy_step:
  "bindE (rd inp k) (wr dst (ooff + (i * n + j))) = Inr t'
     \<Longrightarrow> t' = dst[ooff + i * n + j := inp ! k] \<and> ooff + i * n + j < length dst"
  by (auto simp: bindE_Inr_iff rd_Inr_iff wr_Inr_iff add.assoc)

lemma nested_copy_result:
  assumes run: "for_loop n (\<lambda>i. for_loop k (\<lambda>j dst.
                  bindE (rd inp (src i j)) (wr dst (ooff + (i * k + j))))) out = Inr out'"
  shows "out' = take ooff out @ concat (map (\<lambda>i. map (\<lambda>j. inp ! src i j) [0..<k]) [0..<n])
                  @ drop (ooff + n * k) out"
    and "n * k = 0 \<or> ooff + n * k \<le> length out"
proof -
  have blocks: "agree_outside ooff (ooff + n * k) out' out
      \<and> (n * k = 0 \<or> ooff + n * k \<le> length out)
      \<and> (\<forall>i<n. \<forall>j<k. out' ! (ooff + i * k + j) = inp ! src i j)"
  proof (rule for_loop_blocks [OF run])
    fix i t t'
    assume inner: "for_loop k (\<lambda>j dst. bindE (rd inp (src i j)) (wr dst (ooff + (i * k + j)))) t
                     = Inr t'"
    have "agree_outside (ooff + i * k) (ooff + i * k + k) t' t
        \<and> (k = 0 \<or> ooff + i * k + k \<le> length t)
        \<and> (\<forall>j<k. t' ! (ooff + i * k + j) = inp ! src i j)"
      by (rule for_loop_updates [OF inner]) (rule copy_step)
    then show "agree_outside (ooff + i * k) (ooff + i * k + k) t' t
        \<and> (k = 0 \<or> ooff + i * k + k \<le> length t)
        \<and> (\<forall>j<k. t' ! (ooff + i * k + j) = inp ! src i j)" .
  qed
  then show sz: "n * k = 0 \<or> ooff + n * k \<le> length out" by simp
  have vals: "\<forall>m<n * k. out' ! (ooff + m) = inp ! src (m div k) (m mod k)"
  proof (intro allI impI)
    fix m assume m: "m < n * k"
    then have k: "0 < k" by (cases k) simp_all
    with m have "m div k < n" by (simp add: less_mult_imp_div_less)
    moreover from k have "m mod k < k" by simp
    ultimately have "out' ! (ooff + (m div k) * k + m mod k) = inp ! src (m div k) (m mod k)"
      using blocks by blast
    moreover have "ooff + (m div k) * k + m mod k = ooff + m" by simp
    ultimately show "out' ! (ooff + m) = inp ! src (m div k) (m mod k)" by simp
  qed
  from blocks have ag: "agree_outside ooff (ooff + n * k) out' out" by simp
  from agree_outside_block [OF ag sz vals]
  show "out' = take ooff out @ concat (map (\<lambda>i. map (\<lambda>j. inp ! src i j) [0..<k]) [0..<n])
                  @ drop (ooff + n * k) out"
    by (simp only: concat_map_upt)
qed

lemma length_concat_map_upt [simp]:
  "length (concat (map (\<lambda>i. map (g i) [0..<k]) [0..<n])) = n * k"
  by (simp add: concat_map_upt)

lemma s2dToLinearV_result:
  assumes "s2dToLinearV w h pitch inp ioff out ooff = Inr out'"
  shows "out' = take ooff out
            @ concat (map (\<lambda>c. map (\<lambda>r. inp ! (ioff + c + (r * pitch))) [0..<h]) [0..<w])
            @ drop (ooff + w * h) out"
    and "w * h = 0 \<or> ooff + w * h \<le> length out"
  using assms unfolding s2dToLinearV_def
  by (rule nested_copy_result [where src = "\<lambda>c r. ioff + c + (r * pitch)"])+

lemma s2dToLinearH_result:
  assumes "s2dToLinearH w h pitch inp ioff out ooff = Inr out'"
  shows "out' = take ooff out
            @ concat (map (\<lambda>r. map (\<lambda>c. inp ! (ioff + (r * pitch) + c)) [0..<w]) [0..<h])
            @ drop (ooff + h * w) out"
    and "h * w = 0 \<or> ooff + h * w \<le> length out"
  using assms unfolding s2dToLinearH_def
  by (rule nested_copy_result [where src = "\<lambda>r c. ioff + (r * pitch) + c"])+

lemma block_then_block:
  assumes "t = take a s @ xs @ drop (a + length xs) s"
    and "u = take (a + length xs) t @ ys @ drop (a + length xs + length ys) t"
    and "a + length xs + length ys \<le> length s"
  shows "u = take a s @ (xs @ ys) @ drop (a + length (xs @ ys)) s"
proof -
  from assms(3) have a: "a \<le> length s" by simp
  then have la: "length (take a s) = a" by simp
  have 1: "take (a + length xs) t = take a s @ xs"
    unfolding assms(1) using la by (simp add: take_append)
  have 2: "drop (a + length xs + length ys) t = drop (a + length xs + length ys) s"
    unfolding assms(1) using la by (simp add: drop_append add.commute add.left_commute)
  show ?thesis unfolding assms(2) 1 2 by (simp add: add.assoc)
qed

lemma head_before_block:
  assumes "t = take a s @ xs @ drop (a + length xs) s"
    and "0 < a" and "a + length xs \<le> length s"
  shows "t[a - 1 := q] = take (a - 1) s @ (q # xs) @ drop (a + length xs) s"
proof -
  from assms(2,3) have lt: "a - 1 < length s" by simp
  have "take a s = take (a - 1) s @ [s ! (a - 1)]"
    using assms(2) lt by (metis Suc_pred' take_Suc_conv_app_nth)
  moreover have "length (take (a - 1) s) = a - 1" using lt by simp
  ultimately show ?thesis unfolding assms(1)
    by (simp add: list_update_append)
qed

lemma cursor_back_Inr_iff: "cursor_back c n = Inr c' \<longleftrightarrow> n \<le> c \<and> c' = c - n"
  by (auto simp: cursor_back_def)

lemma quadrant_colmajor_alt:
  "quadrant_colmajor tw th plane lp r0 c0 =
     concat (map (\<lambda>c. map (\<lambda>r. plane ! ((lp + r0 * (tw * 2) + c0) + c + (r * (tw * 2))))
       [0..<th]) [0..<tw])"
proof -
  have "lp + (r0 + r) * (tw * 2) + (c0 + c) = (lp + r0 * (tw * 2) + c0) + c + (r * (tw * 2))"
    for r c by (simp add: algebra_simps)
  then show ?thesis by (simp only: quadrant_colmajor_def)
qed

lemma quadrant_rowmajor_alt:
  "quadrant_rowmajor tw th plane lp r0 c0 =
     concat (map (\<lambda>r. map (\<lambda>c. plane ! ((lp + r0 * (tw * 2) + c0) + (r * (tw * 2)) + c))
       [0..<tw]) [0..<th])"
proof -
  have "lp + (r0 + r) * (tw * 2) + (c0 + c) = (lp + r0 * (tw * 2) + c0) + (r * (tw * 2)) + c"
    for r c by (simp add: algebra_simps)
  then show ?thesis by (simp only: quadrant_rowmajor_def)
qed

lemma length_quadrant_colmajor [simp]:
  "length (quadrant_colmajor tw th plane lp r0 c0) = tw * th"
  by (simp add: quadrant_colmajor_def)

lemma length_quadrant_rowmajor [simp]:
  "length (quadrant_rowmajor tw th plane lp r0 c0) = th * tw"
  by (simp add: quadrant_rowmajor_def)

lemma s2dToLinearV_quadrant:
  assumes "s2dToLinearV tw th (tw * 2) inp ioff out ooff = Inr out'"
    and "ioff = lp + r0 * (tw * 2) + c0"
  shows "out' = take ooff out @ quadrant_colmajor tw th inp lp r0 c0
                  @ drop (ooff + length (quadrant_colmajor tw th inp lp r0 c0)) out"
    and "tw * th = 0 \<or> ooff + tw * th \<le> length out"
    and "length out' = length out"
proof -
  note R = s2dToLinearV_result [OF assms(1)]
  from R(1) show eq: "out' = take ooff out @ quadrant_colmajor tw th inp lp r0 c0
                  @ drop (ooff + length (quadrant_colmajor tw th inp lp r0 c0)) out"
    by (simp only: quadrant_colmajor_alt assms(2) length_concat_map_upt)
  from R(2) show sz: "tw * th = 0 \<or> ooff + tw * th \<le> length out" .
  show "length out' = length out"
  proof (cases "tw * th = 0")
    case True
    then have "quadrant_colmajor tw th inp lp r0 c0 = []"
      by (simp only: length_0_conv [symmetric] length_quadrant_colmajor)
    with eq show ?thesis by simp
  next
    case False
    with sz have "ooff + tw * th \<le> length out" by simp
    then show ?thesis by (subst eq) simp
  qed
qed

lemma emit_highpasses_result:
  assumes "emit_highpasses tw th lp q (m, c) = Inr (m', c')"
  shows "c' + record_length (tw, th) = c"
    and "c \<le> length (out_mem m)"
    and "m' = m\<lparr>out_mem := take c' (out_mem m)
                 @ (q # quadrant_colmajor tw th (in_mem m) lp th 0
                      @ quadrant_colmajor tw th (in_mem m) lp 0 tw
                      @ quadrant_colmajor tw th (in_mem m) lp th tw)
                 @ drop c (out_mem m)\<rparr>"
proof -
  let ?n = "tw * th"
  let ?C = "quadrant_colmajor tw th (in_mem m) lp th 0"
  let ?B = "quadrant_colmajor tw th (in_mem m) lp 0 tw"
  let ?D = "quadrant_colmajor tw th (in_mem m) lp th tw"
  let ?o = "out_mem m"
  from assms obtain c1 o1 o2 o3 o4 where
    c1: "?n * 3 \<le> c" "c1 = c - ?n * 3"
    and w1: "s2dToLinearV tw th (tw * 2) (in_mem m) (lp + tw * th * 2) ?o (c1 + ?n * 0) = Inr o1"
    and w2: "s2dToLinearV tw th (tw * 2) (in_mem m) (lp + tw) o1 (c1 + ?n * 1) = Inr o2"
    and w3: "s2dToLinearV tw th (tw * 2) (in_mem m) (lp + tw + th * (tw * 2)) o2 (c1 + ?n * 2)
               = Inr o3"
    and c2: "1 \<le> c1" "c' = c1 - 1"
    and w4: "c' < length o3" "o4 = o3[c' := q]"
    and m': "m' = m\<lparr>out_mem := o4\<rparr>"
    by (auto simp: emit_highpasses_def Let_def bindE_Inr_iff cursor_back_Inr_iff wr_Inr_iff)
  note A = s2dToLinearV_quadrant [OF w1, where lp = lp and ?r0.0 = th and ?c0.0 = 0]
  note B = s2dToLinearV_quadrant [OF w2, where lp = lp and ?r0.0 = 0 and ?c0.0 = tw]
  note D = s2dToLinearV_quadrant [OF w3, where lp = lp and ?r0.0 = th and ?c0.0 = tw]
  have A1: "o1 = take c1 ?o @ ?C @ drop (c1 + length ?C) ?o" and A2: "length o1 = length ?o"
    using A by (simp_all add: mult.commute mult.left_commute)
  have B1: "o2 = take (c1 + length ?C) o1 @ ?B @ drop (c1 + length ?C + length ?B) o1"
    and B2: "length o2 = length o1"
    using B by (simp_all add: mult.commute mult.left_commute)
  have D1: "o3 = take (c1 + length (?C @ ?B)) o2 @ ?D @ drop (c1 + length (?C @ ?B) + length ?D) o2"
    and D2: "length o3 = length o2"
    using D by (simp_all add: mult.commute mult.left_commute mult_2_right add.assoc)
  have D3: "?n = 0 \<or> c1 + ?n * 2 + ?n \<le> length o2"
    by (rule D(2)) simp
  from c1 c2 show cur: "c' + record_length (tw, th) = c"
    by (simp add: record_length_def)
  have fits: "c1 + ?n * 3 \<le> length ?o"
  proof (cases "?n = 0")
    case True
    then have "c1 + ?n * 3 = c1" by (simp only:)
    moreover from w4 c2 A2 B2 D2 have "c1 \<le> length ?o" by simp
    ultimately show ?thesis by (simp only:)
  next
    case False
    with D3 have "c1 + ?n * 2 + ?n \<le> length o2" by blast
    with A2 B2 show ?thesis by linarith
  qed
  with c1 show "c \<le> length ?o" by simp
  have CB: "o2 = take c1 ?o @ (?C @ ?B) @ drop (c1 + length (?C @ ?B)) ?o"
    by (rule block_then_block [OF A1 B1]) (use fits in simp)
  have CBD: "o3 = take c1 ?o @ ((?C @ ?B) @ ?D) @ drop (c1 + length ((?C @ ?B) @ ?D)) ?o"
    by (rule block_then_block [OF CB D1]) (use fits in simp)
  have "o3[c1 - 1 := q] = take (c1 - 1) ?o @ (q # (?C @ ?B) @ ?D)
          @ drop (c1 + length ((?C @ ?B) @ ?D)) ?o"
    by (rule head_before_block [OF CBD]) (use c2 fits in simp_all)
  moreover have "c1 + length ((?C @ ?B) @ ?D) = c" using c1 by simp
  ultimately have "o4 = take c' ?o @ (q # ?C @ ?B @ ?D) @ drop c ?o"
    using w4 c2 by simp
  with m' show "m' = m\<lparr>out_mem := take c' ?o @ (q # ?C @ ?B @ ?D) @ drop c ?o\<rparr>"
    by simp
qed

section \<open>The emission cursor\<close>

lemma emit_lowpass_result:
  assumes "emit_lowpass tile_w tile_h ps tw th ch (m, c) = Inr (m', c')"
  shows "c' + tw * th = c"
    and "m' = m\<lparr>out_mem := take c' (out_mem m)
                 @ quadrant_rowmajor tw th (in_mem m) (((tile_w * tile_h) + ps) * ch) 0 0
                 @ drop c (out_mem m)\<rparr>"
proof -
  let ?lp = "((tile_w * tile_h) + ps) * ch"
  from assms obtain o1 where
    c: "tw * th \<le> c" "c' = c - tw * th"
    and w1: "s2dToLinearH tw th (tw * 2) (in_mem m) ?lp (out_mem m) c' = Inr o1"
    and m': "m' = m\<lparr>out_mem := o1\<rparr>"
    by (auto simp: emit_lowpass_def Let_def bindE_Inr_iff cursor_back_Inr_iff)
  from c show "c' + tw * th = c" by simp
  then have "c' + th * tw = c" by (simp add: mult.commute)
  with s2dToLinearH_result(1) [OF w1]
  have "o1 = take c' (out_mem m) @ quadrant_rowmajor tw th (in_mem m) ?lp 0 0 @ drop c (out_mem m)"
    by (simp add: quadrant_rowmajor_alt)
  with m' show "m' = m\<lparr>out_mem := take c' (out_mem m)
                 @ quadrant_rowmajor tw th (in_mem m) ?lp 0 0 @ drop c (out_mem m)\<rparr>"
    by simp
qed

lemma lift_channel_cursor:
  assumes "lift_channel E s tile_w tile_h ps lft cw chh tw th ch mc = Inr mc'"
  shows "snd mc' + record_length (tw, th) = snd mc"
proof -
  from assms obtain m1 where
    "emit_highpasses tw th (((tile_w * tile_h) + ps) * ch)
       (float_to_int16 (fst (quant_gate E s (TileTotalLifts E tile_w tile_h) lft ch)))
       (m1, snd mc) = Inr (fst mc', snd mc')"
    by (auto simp: lift_channel_def Let_def bindE_Inr_iff split: prod.splits)
  then show ?thesis by (rule emit_highpasses_result(1))
qed

lemma emit_lowpass_cursor:
  assumes "emit_lowpass tile_w tile_h ps tw th ch mc = Inr mc'"
  shows "snd mc' + tw * th = snd mc"
  using emit_lowpass_result(1) [of tile_w tile_h ps tw th ch "fst mc" "snd mc" "fst mc'" "snd mc'"]
    assms by simp

lemma foldE_cursor:
  assumes "\<And>i mc mc'. body i mc = Inr mc' \<Longrightarrow> snd mc' + d = snd mc"
    and "foldE body xs mc = Inr mc'"
  shows "snd mc' + length xs * d = snd mc"
  using assms(2)
proof (induction xs arbitrary: mc)
  case Nil
  then show ?case by simp
next
  case (Cons x xs)
  from Cons.prems obtain mc1 where 1: "body x mc = Inr mc1" and 2: "foldE body xs mc1 = Inr mc'"
    by (auto split: sum.splits)
  from Cons.IH [OF 2] assms(1) [OF 1] show ?case by simp
qed

lemma lift_sizes_rec:
  "2 < w \<and> 2 < h \<Longrightarrow> lift_sizes w h = (half_up w, half_up h) # lift_sizes (half_up w) (half_up h)"
  "\<not> (2 < w \<and> 2 < h) \<Longrightarrow> lift_sizes w h = []"
  by (subst lift_sizes.simps, simp)+

lemma final_size_rec:
  "2 < w \<and> 2 < h \<Longrightarrow> final_size w h = final_size (half_up w) (half_up h)"
  "\<not> (2 < w \<and> 2 < h) \<Longrightarrow> final_size w h = (w, h)"
  by (simp_all add: final_size_def lift_sizes_rec)

lemma stream_length_rec:
  "2 < w \<and> 2 < h \<Longrightarrow>
     stream_length w h = record_length (half_up w, half_up h) + stream_length (half_up w) (half_up h)"
  "\<not> (2 < w \<and> 2 < h) \<Longrightarrow> stream_length w h = w * h"
  by (simp_all add: stream_length_def lift_sizes_rec final_size_rec)

lemma highpasses_result:
  "highpasses E s tile_w tile_h channels ps st = Inr st' \<Longrightarrow>
     output_cursor st'
         + channels * sum_list (map record_length (lift_sizes (target_w st) (target_h st)))
       = output_cursor st
     \<and> lift st' = lift st + length (lift_sizes (target_w st) (target_h st))
     \<and> (target_w st', target_h st') = final_size (target_w st) (target_h st)"
proof (induction E s tile_w tile_h channels ps st rule: highpasses.induct)
  case (1 E s tile_w tile_h channels ps st)
  show ?case
  proof (cases "2 < target_w st \<and> 2 < target_h st")
    case False
    with "1.prems" have "st' = st" by (subst (asm) highpasses.simps) simp
    with False show ?thesis by (simp add: lift_sizes_rec final_size_rec)
  next
    case True
    let ?tw = "half_up (target_w st)" and ?th = "half_up (target_h st)"
    from "1.prems" True obtain mc where
      fold: "foldE (lift_channel E s tile_w tile_h ps (lift st) (target_w st) (target_h st) ?tw ?th)
               (channels_down channels) (memory st, output_cursor st) = Inr mc"
      and rec: "highpasses E s tile_w tile_h channels ps
                  \<lparr>lift = lift st + 1, target_w = ?tw, target_h = ?th,
                   output_cursor = snd mc, memory = fst mc\<rparr> = Inr st'"
      by (subst (asm) highpasses.simps) (auto simp: Let_def split: sum.splits)
    from "1.IH" [OF True refl refl refl refl fold rec]
    have IH: "output_cursor st' + channels * sum_list (map record_length (lift_sizes ?tw ?th))
                = snd mc"
      "lift st' = lift st + 1 + length (lift_sizes ?tw ?th)"
      "(target_w st', target_h st') = final_size ?tw ?th"
      by simp_all
    have "snd mc + length (channels_down channels) * record_length (?tw, ?th)
            = snd (memory st, output_cursor st)"
      by (rule foldE_cursor [OF _ fold]) (rule lift_channel_cursor)
    then have "snd mc + channels * record_length (?tw, ?th) = output_cursor st"
      by (simp add: channels_down_def)
    with IH True show ?thesis
      by (simp add: lift_sizes_rec final_size_rec distrib_left)
  qed
qed

lemma dwt_emit_result:
  assumes "dwt_emit E s tile_w tile_h channels ps m = Inr st"
  shows "output_cursor st + channels * stream_length tile_w tile_h
           = TileTotalLength E tile_w tile_h * channels"
    and "lift st = length (lift_sizes tile_w tile_h)"
    and "(target_w st, target_h st) = final_size tile_w tile_h"
proof -
  let ?st0 = "\<lparr>lift = 0, target_w = tile_w, target_h = tile_h,
               output_cursor = TileTotalLength E tile_w tile_h * channels, memory = m\<rparr>"
  from assms obtain st1 mc where
    hp: "highpasses E s tile_w tile_h channels ps ?st0 = Inr st1"
    and lp: "foldE (emit_lowpass tile_w tile_h ps (target_w st1) (target_h st1))
               (channels_down channels) (memory st1, output_cursor st1) = Inr mc"
    and st: "st = st1\<lparr>output_cursor := snd mc, memory := fst mc\<rparr>"
    by (auto simp: dwt_emit_def bindE_Inr_iff)
  from highpasses_result [OF hp] have H:
    "output_cursor st1 + channels * sum_list (map record_length (lift_sizes tile_w tile_h))
       = TileTotalLength E tile_w tile_h * channels"
    "lift st1 = length (lift_sizes tile_w tile_h)"
    "(target_w st1, target_h st1) = final_size tile_w tile_h"
    by simp_all
  have "snd mc + length (channels_down channels) * (target_w st1 * target_h st1)
          = snd (memory st1, output_cursor st1)"
    by (rule foldE_cursor [OF _ lp]) (rule emit_lowpass_cursor)
  then have L: "snd mc + channels * (target_w st1 * target_h st1) = output_cursor st1"
    by (simp add: channels_down_def)
  from H(3) have fs: "fst (final_size tile_w tile_h) = target_w st1"
    "snd (final_size tile_w tile_h) = target_h st1"
    by (simp_all add: prod_eq_iff)
  from H(1) L st show "output_cursor st + channels * stream_length tile_w tile_h
           = TileTotalLength E tile_w tile_h * channels"
    by (simp add: stream_length_def fs distrib_left)
  from H(2) st show "lift st = length (lift_sizes tile_w tile_h)" by simp
  from H(3) st show "(target_w st, target_h st) = final_size tile_w tile_h" by simp
qed

lemma half_up_double: "n \<le> 2 * half_up n"
  by (simp add: half_up_def) presburger

lemma stream_length_ge: "w * h \<le> stream_length w h"
proof (induction w h rule: lift_sizes.induct)
  case (1 w h)
  show ?case
  proof (cases "2 < w \<and> 2 < h")
    case False
    then show ?thesis by (simp add: stream_length_rec)
  next
    case True
    have "w * h \<le> (2 * half_up w) * (2 * half_up h)"
      by (intro mult_le_mono half_up_double)
    also have "\<dots> = half_up w * half_up h * 3 + half_up w * half_up h" by simp
    also have "\<dots> \<le> half_up w * half_up h * 3 + stream_length (half_up w) (half_up h)"
      using "1.IH" [OF True] by (simp add: mult.commute)
    finally show ?thesis using True by (simp add: stream_length_rec record_length_def)
  qed
qed

lemma stream_length_gt:
  assumes "2 < w" "2 < h"
  shows "w * h < stream_length w h"
proof -
  have "w * h \<le> (2 * half_up w) * (2 * half_up h)"
    by (intro mult_le_mono half_up_double)
  also have "\<dots> = half_up w * half_up h * 3 + half_up w * half_up h" by simp
  also have "\<dots> \<le> half_up w * half_up h * 3 + stream_length (half_up w) (half_up h)"
    using stream_length_ge [of "half_up w" "half_up h"] by (simp add: mult.commute)
  also have "\<dots> < stream_length w h"
    using assms by (simp add: stream_length_rec record_length_def)
  finally show ?thesis .
qed

section \<open>The output as a list of records\<close>

subsection \<open>What a lift leaves of the output\<close>

text \<open>The first lift of a channel uses \<^verbatim>\<open>out\<close> as its second buffer; the later lifts
  do not touch it.\<close>

lemma agree_outside_refl [simp]: "agree_outside lo hi s s"
  by (simp add: agree_outside_def)

lemma agree_outside_trans:
  "agree_outside lo hi a b \<Longrightarrow> agree_outside lo hi b c \<Longrightarrow> agree_outside lo hi a c"
  by (simp add: agree_outside_def)

lemma agree_outside_mono:
  "agree_outside lo hi a b \<Longrightarrow> lo' \<le> lo \<Longrightarrow> hi \<le> hi' \<Longrightarrow> agree_outside lo' hi' a b"
  by (auto simp: agree_outside_def)

lemma agree_outside_drop:
  assumes "agree_outside lo hi a b" "hi \<le> c"
  shows "drop c a = drop c b"
proof (rule nth_equalityI)
  from assms(1) show "length (drop c a) = length (drop c b)" by (simp add: agree_outside_def)
  fix i assume "i < length (drop c a)"
  with assms show "drop c a ! i = drop c b ! i" by (simp add: agree_outside_def)
qed

lemma out_frame_refl [simp]: "out_frame b lo hi m m"
  by (cases b) (simp_all add: out_frame_def)

lemma out_frame_trans:
  "out_frame b lo hi t u \<Longrightarrow> out_frame b lo hi u m \<Longrightarrow> out_frame b lo hi t m"
  by (cases b) (auto simp: out_frame_def intro: agree_outside_trans)

lemma out_frame_mono:
  "out_frame b lo hi t m \<Longrightarrow> lo' \<le> lo \<Longrightarrow> hi \<le> hi' \<Longrightarrow> out_frame b lo' hi' t m"
  by (cases b) (auto simp: out_frame_def intro: agree_outside_mono)

lemma out_frame_same: "out_mem t = out_mem m \<Longrightarrow> out_frame b lo hi t m"
  by (cases b) (simp_all add: out_frame_def)

lemma for_loop_out_frame:
  assumes run: "for_loop n body m = Inr m'"
    and step: "\<And>i t t'. i < n \<Longrightarrow> body i t = Inr t' \<Longrightarrow> out_frame b lo hi t' t"
  shows "out_frame b lo hi m' m"
proof (rule for_loop_inv [OF run, where P = "\<lambda>k t. out_frame b lo hi t m"])
  show "out_frame b lo hi m m" by simp
next
  fix i t t' assume "i < n" "out_frame b lo hi t m" "body i t = Inr t'"
  from step [OF this(1,3)] this(2) show "out_frame b lo hi t' m" by (rule out_frame_trans)
qed

lemma wr_aux_out: "wr_aux m i v = Inr m' \<Longrightarrow> out_mem m' = out_mem m"
  by (auto simp: wr_aux_def bindE_Inr_iff)

lemma to_aux_out: "bindE (rd_ptr m p i) (wr_aux m j) = Inr m' \<Longrightarrow> out_mem m' = out_mem m"
  by (auto simp: bindE_Inr_iff dest: wr_aux_out)

lemma wr_ptr_out:
  assumes "wr_ptr m p i v = Inr m'" "lo \<le> snd p + i" "snd p + i < hi"
  shows "out_frame (fst p) lo hi m' m"
  using assms
  by (cases "fst p")
     (auto simp: wr_ptr_def bindE_Inr_iff wr_Inr_iff buf_put_def buf_get_def out_frame_def
                 agree_outside_def)

lemma sLift1d_rows_out:
  assumes "sLift1d_rows w rnd q g len m out = Inr m'"
  shows "out_frame (fst out) (snd out) (snd out + 2 * len) m' m"
proof (cases "fst out")
  case InBuf
  with assms show ?thesis
    by (auto simp: sLift1d_rows_def Let_def bindE_Inr_iff buf_put_def out_frame_def)
next
  case OutBuf
  let ?xs = "out_mem m" and ?off = "snd out"
  from assms OutBuf obtain r where
    r: "sLift1d w rnd q g len (aux_memory m) (drop ?off ?xs) = Inr r"
    and m': "out_mem m' = take ?off ?xs @ r"
    by (auto simp: sLift1d_rows_def Let_def bindE_Inr_iff buf_put_def buf_get_def)
  note R = sLift1d_result [OF r]
  have len: "length (take ?off ?xs @ r) = length ?xs" using R(1) by simp
  have "agree_outside ?off (?off + 2 * len) (take ?off ?xs @ r) ?xs"
    unfolding agree_outside_def
  proof (intro conjI allI impI)
    show "length (take ?off ?xs @ r) = length ?xs" by (rule len)
    fix k assume k: "k < length ?xs" "k < ?off \<or> ?off + 2 * len \<le> k"
    show "(take ?off ?xs @ r) ! k = ?xs ! k"
    proof (cases "k < ?off")
      case True
      with k show ?thesis by (simp add: nth_append)
    next
      case False
      with k have ge: "?off + 2 * len \<le> k" by simp
      from k ge have lt: "?off \<le> length ?xs" by simp
      then have "(take ?off ?xs @ r) ! k = r ! (k - ?off)"
        using False by (simp add: nth_append min_def)
      also have "\<dots> = drop ?off ?xs ! (k - ?off)"
        by (rule R(5)) (use ge k in simp_all)
      also have "\<dots> = ?xs ! k" using ge lt by simp
      finally show ?thesis .
    qed
  qed
  with m' OutBuf show ?thesis by (simp add: out_frame_def)
qed

lemma memcpy_ptr_out:
  assumes "memcpy_ptr m dst src n = Inr m'"
  shows "out_frame (fst dst) (snd dst) (snd dst + n) m' m"
  using assms unfolding memcpy_ptr_def
proof (rule for_loop_out_frame)
  fix i t t' assume i: "i < n" and b: "bindE (rd_ptr t src i) (wr_ptr t dst i) = Inr t'"
  then obtain v where "wr_ptr t dst i v = Inr t'" by (auto simp: bindE_Inr_iff)
  then show "out_frame (fst dst) (snd dst) (snd dst + n) t' t"
    by (rule wr_ptr_out) (use i in simp_all)
qed

lemma lift_row_out:
  assumes run: "lift_row w rnd q g cw tw pitch a b rw m = Inr m'"
  shows "out_frame (fst b) (snd b + rw * (tw * 2)) (snd b + rw * (tw * 2) + 2 * tw) m' m"
proof -
  let ?inp = "ptr_add a (rw * (cw + pitch))" and ?out = "ptr_add b (rw * (tw * 2))"
  from run obtain m1 m2 where
    1: "for_loop cw (\<lambda>i m. bindE (rd_ptr m ?inp i) (wr_aux m i)) m = Inr m1"
    and 2: "(if size_sub (tw * 2) cw \<noteq> 0
             then bindE (rd_ptr m1 ?inp (size_sub cw 1)) (wr_aux m1 (size_sub (tw * 2) 1))
             else Inr m1) = Inr m2"
    and 3: "sLift1d_rows w rnd q g tw m2 ?out = Inr m'"
    by (auto simp: lift_row_def Let_def bindE_Inr_iff)
  have "out_mem m1 = out_mem m"
  proof -
    have "out_frame InBuf 0 0 m1 m"
      by (rule for_loop_out_frame [OF 1]) (auto simp: out_frame_def dest: to_aux_out)
    then show ?thesis by (simp add: out_frame_def)
  qed
  moreover from 2 have "out_mem m2 = out_mem m1"
    by (auto split: if_splits dest: to_aux_out)
  moreover from sLift1d_rows_out [OF 3]
  have "out_frame (fst b) (snd b + rw * (tw * 2)) (snd b + rw * (tw * 2) + 2 * tw) m' m2"
    by (simp add: ptr_add_def)
  ultimately show ?thesis
    by (cases "fst b") (simp_all add: out_frame_def)
qed

lemma lift_col_out:
  assumes run: "lift_col w rnd q g tw th a b cl m = Inr m'" and a: "fst a = InBuf"
  shows "out_mem m' = out_mem m"
proof -
  from run obtain m1 m2 where
    1: "for_loop (th * 2)
          (\<lambda>i m. bindE (rd_ptr m b (cl + i * (tw * 2))) (wr_aux m i)) m = Inr m1"
    and 2: "sLift1d_cols w rnd q g th m1 = Inr m2"
    and 3: "for_loop (th * 2)
         (\<lambda>i m. bindE (rd (aux_memory m) (th * 2 + i))
                   (wr_ptr m a (cl + i * (tw * 2)))) m2 = Inr m'"
    by (auto simp: lift_col_def bindE_Inr_iff)
  have "out_frame InBuf 0 0 m1 m"
    by (rule for_loop_out_frame [OF 1]) (auto simp: out_frame_def dest: to_aux_out)
  moreover from 2 have "out_mem m2 = out_mem m1"
    by (auto simp: sLift1d_cols_def Let_def bindE_Inr_iff)
  moreover have "out_frame InBuf 0 0 m' m2"
  proof (rule for_loop_out_frame [OF 3])
    fix i t t'
    assume "bindE (rd (aux_memory t) (th * 2 + i)) (wr_ptr t a (cl + i * (tw * 2))) = Inr t'"
    then obtain v where "wr_ptr t a (cl + i * (tw * 2)) v = Inr t'"
      by (auto simp: bindE_Inr_iff)
    with a show "out_frame InBuf 0 0 t' t"
      by (auto simp: wr_ptr_def bindE_Inr_iff buf_put_def out_frame_def)
  qed
  ultimately show ?thesis by (simp add: out_frame_def)
qed

lemma sLift2d_out:
  assumes run: "sLift2d w rnd ch q g cw chh tw th pitch m a b = Inr m'"
    and a: "fst a = InBuf" and chh: "chh \<le> 2 * th"
  shows "out_frame (fst b) (snd b) (snd b + (th * 2) * (tw * 2)) m' m"
proof -
  let ?lo = "snd b" and ?hi = "snd b + (th * 2) * (tw * 2)"
  let ?out = "ptr_add b (chh * (tw * 2))"
  from run obtain m1 m2 where
    1: "for_loop chh (lift_row w rnd q g cw tw pitch a b) m = Inr m1"
    and 2: "(if size_sub (th * 2) chh \<noteq> 0
             then (if snd ?out < tw * 2 then Inl OutOfBounds
                   else memcpy_ptr m1 ?out (fst ?out, snd ?out - tw * 2) (tw * 2))
             else Inr m1) = Inr m2"
    and 3: "for_loop (tw * 2) (lift_col w rnd q g tw th a b) m2 = Inr m'"
    by (auto simp: sLift2d_def Let_def bindE_Inr_iff)
  have F1: "out_frame (fst b) ?lo ?hi m1 m"
  proof (rule for_loop_out_frame [OF 1])
    fix i t t' assume i: "i < chh" and r: "lift_row w rnd q g cw tw pitch a b i t = Inr t'"
    from i chh have "Suc i * (tw * 2) \<le> (th * 2) * (tw * 2)"
      by (intro mult_le_mono1) simp
    then have "i * (tw * 2) + 2 * tw \<le> (th * 2) * (tw * 2)" by simp
    then have hi: "snd b + i * (tw * 2) + 2 * tw \<le> ?hi" by linarith
    show "out_frame (fst b) ?lo ?hi t' t"
      by (rule out_frame_mono [OF lift_row_out [OF r] _ hi]) simp
  qed
  have F2: "out_frame (fst b) ?lo ?hi m2 m1"
  proof (cases "size_sub (th * 2) chh \<noteq> 0")
    case False
    with 2 show ?thesis by simp
  next
    case True
    with 2 have mc: "memcpy_ptr m1 ?out (fst ?out, snd ?out - tw * 2) (tw * 2) = Inr m2"
      by (simp split: if_splits)
    from True chh have "chh < th * 2" by (auto simp: size_sub_def split: if_splits)
    then have "Suc chh * (tw * 2) \<le> (th * 2) * (tw * 2)"
      by (intro mult_le_mono1) simp
    then have "chh * (tw * 2) + tw * 2 \<le> (th * 2) * (tw * 2)" by simp
    then have hi: "snd ?out + tw * 2 \<le> ?hi" by (simp add: ptr_add_def)
    have "out_frame (fst ?out) ?lo ?hi m2 m1"
      by (rule out_frame_mono [OF memcpy_ptr_out [OF mc] _ hi]) (simp add: ptr_add_def)
    then show ?thesis by (simp add: ptr_add_def)
  qed
  have F3: "out_frame (fst b) ?lo ?hi m' m2"
  proof (rule for_loop_out_frame [OF 3])
    fix i t t' assume "lift_col w rnd q g tw th a b i t = Inr t'"
    from lift_col_out [OF this a] show "out_frame (fst b) ?lo ?hi t' t"
      by (rule out_frame_same)
  qed
  from F3 F2 F1 show ?thesis by (blast intro: out_frame_trans)
qed


subsection \<open>Records and lowpasses behind the cursor\<close>

text \<open>After every step the slots from the cursor on hold the blocks emitted so far, the
  last one first, followed by what the output held behind the first cursor.\<close>

lemma length_highpass_record [simp]:
  "length (highpass_record tw th plane lp q) = record_length (tw, th)"
  by (simp add: highpass_record_def record_length_def)

lemma drop_spliced:
  assumes "c' + length xs = c" "c \<le> length ys"
  shows "drop c' (take c' ys @ xs @ drop c zs) = xs @ drop c zs"
  using assms by simp

lemma lift_channel_stream:
  assumes run: "lift_channel E s tile_w tile_h ps lft cw chh tw th ch (m, c) = Inr (m', c')"
    and chh: "chh \<le> 2 * th" and th0: "lft = 0 \<longrightarrow> tile_h \<le> 2 * th"
    and room: "lft = 0 \<longrightarrow> (tile_w * tile_h) * ch + (th * 2) * (tw * 2) \<le> c"
  shows "drop c' (out_mem m')
           = highpass_record tw th (in_mem m') (((tile_w * tile_h) + ps) * ch)
               (float_to_int16 (fst (quant_gate E s (TileTotalLifts E tile_w tile_h) lft ch)))
             @ drop c (out_mem m)"
    and "c' + record_length (tw, th) = c"
proof -
  let ?lp = "((tile_w * tile_h) + ps) * ch"
  let ?q = "float_to_int16 (fst (quant_gate E s (TileTotalLifts E tile_w tile_h) lft ch))"
  let ?g = "snd (quant_gate E s (TileTotalLifts E tile_w tile_h) lft ch)"
  from run obtain m1 where
    lift: "(if lft = 0
            then sLift2d (AKO_WAVELET E) (float_round E) ch ?q ?g tile_w tile_h tw th 0 m
                   (InBuf, ?lp) (OutBuf, (tile_w * tile_h) * ch)
            else sLift2d (AKO_WAVELET E) (float_round E) ch ?q ?g cw chh tw th cw m
                   (InBuf, ?lp) (InBuf, ?lp + (cw * chh * 2))) = Inr m1"
    and emit: "emit_highpasses tw th ?lp ?q (m1, c) = Inr (m', c')"
    by (cases "lft = 0")
       (auto simp: lift_channel_def Let_def bindE_Inr_iff split: prod.splits)
  note R = emit_highpasses_result [OF emit]
  from R(1) show cur: "c' + record_length (tw, th) = c" .
  have keep: "drop c (out_mem m1) = drop c (out_mem m)"
  proof (cases "lft = 0")
    case True
    with lift have "sLift2d (AKO_WAVELET E) (float_round E) ch ?q ?g tile_w tile_h tw th 0 m
                   (InBuf, ?lp) (OutBuf, (tile_w * tile_h) * ch) = Inr m1" by simp
    from sLift2d_out [OF this] True th0
    have "agree_outside ((tile_w * tile_h) * ch) ((tile_w * tile_h) * ch + (th * 2) * (tw * 2))
            (out_mem m1) (out_mem m)"
      by (simp add: out_frame_def)
    then show ?thesis by (rule agree_outside_drop) (use room True in simp)
  next
    case False
    with lift have "sLift2d (AKO_WAVELET E) (float_round E) ch ?q ?g cw chh tw th cw m
                   (InBuf, ?lp) (InBuf, ?lp + (cw * chh * 2)) = Inr m1" by simp
    from sLift2d_out [OF this _ chh] show ?thesis by (simp add: out_frame_def)
  qed
  have in': "in_mem m' = in_mem m1" by (subst R(3)) simp
  have "out_mem m' = take c' (out_mem m1) @ highpass_record tw th (in_mem m1) ?lp ?q
                       @ drop c (out_mem m1)"
    by (subst R(3)) (simp add: highpass_record_def)
  then have "drop c' (out_mem m')
               = highpass_record tw th (in_mem m1) ?lp ?q @ drop c (out_mem m1)"
    using cur R(2) by (simp only: drop_spliced length_highpass_record)
  then show "drop c' (out_mem m')
           = highpass_record tw th (in_mem m') ?lp ?q @ drop c (out_mem m)"
    by (simp only: in' keep)
qed


lemma stream_length_room:
  assumes "2 < w" "2 < h"
  shows "4 * (half_up w * half_up h) < stream_length w h"
proof -
  have "half_up w * half_up h \<le> stream_length (half_up w) (half_up h)"
    by (rule stream_length_ge)
  with assms show ?thesis by (simp add: stream_length_rec record_length_def mult.commute)
qed


lemma level_stream:
  assumes chh: "chh \<le> 2 * th" and th0: "lft = 0 \<longrightarrow> tile_h \<le> 2 * th"
    and K: "lft = 0 \<longrightarrow> record_length (tw, th) \<le> K \<and> tile_w * tile_h \<le> K
              \<and> (th * 2) * (tw * 2) \<le> K"
  shows "foldE (lift_channel E s tile_w tile_h ps lft cw chh tw th) (rev [0..<n]) (m, c)
           = Inr (m', c')
         \<Longrightarrow> (lft = 0 \<longrightarrow> n * K \<le> c)
         \<Longrightarrow> drop c' (out_mem m')
               = level_records E s tile_w tile_h ps lft cw chh tw th (rev [0..<n]) (m, c)
                 @ drop c (out_mem m)
             \<and> c' + n * record_length (tw, th) = c
             \<and> length (level_records E s tile_w tile_h ps lft cw chh tw th (rev [0..<n]) (m, c))
                 = n * record_length (tw, th)"
proof (induction n arbitrary: m c)
  case 0
  then show ?case by simp
next
  case (Suc n)
  let ?step = "lift_channel E s tile_w tile_h ps lft cw chh tw th"
  let ?rec = "\<lambda>t. highpass_record tw th (in_mem t) (((tile_w * tile_h) + ps) * n)
                (float_to_int16 (fst (quant_gate E s (TileTotalLifts E tile_w tile_h) lft n)))"
  from Suc.prems(1) obtain m1 c1 where
    1: "?step n (m, c) = Inr (m1, c1)"
    and 2: "foldE ?step (rev [0..<n]) (m1, c1) = Inr (m', c')"
    by (auto split: sum.splits)
  have room: "lft = 0 \<longrightarrow> (tile_w * tile_h) * n + (th * 2) * (tw * 2) \<le> c"
  proof
    assume z: "lft = 0"
    with K have k: "tile_w * tile_h \<le> K" "(th * 2) * (tw * 2) \<le> K" by simp_all
    from k(1) have "(tile_w * tile_h) * n \<le> K * n" by (rule mult_le_mono1)
    moreover from Suc.prems(2) z have "K * n + K \<le> c" by (simp add: mult.commute)
    ultimately show "(tile_w * tile_h) * n + (th * 2) * (tw * 2) \<le> c" using k(2) by linarith
  qed
  note S = lift_channel_stream [OF 1 chh th0 room]
  have room1: "lft = 0 \<longrightarrow> n * K \<le> c1"
  proof
    assume z: "lft = 0"
    with K have "record_length (tw, th) \<le> K" by simp
    moreover from Suc.prems(2) z have "n * K + K \<le> c" by simp
    ultimately show "n * K \<le> c1" using S(2) by linarith
  qed
  from Suc.IH [OF 2 room1] have IH:
    "drop c' (out_mem m') = level_records E s tile_w tile_h ps lft cw chh tw th (rev [0..<n]) (m1, c1)
                 @ drop c1 (out_mem m1)"
    "c' + n * record_length (tw, th) = c1"
    "length (level_records E s tile_w tile_h ps lft cw chh tw th (rev [0..<n]) (m1, c1))
                 = n * record_length (tw, th)"
    by simp_all
  have unfold: "level_records E s tile_w tile_h ps lft cw chh tw th (rev [0..<Suc n]) (m, c)
          = level_records E s tile_w tile_h ps lft cw chh tw th (rev [0..<n]) (m1, c1) @ ?rec m1"
    by (simp add: 1)
  show ?case
  proof (intro conjI)
    show "drop c' (out_mem m')
            = level_records E s tile_w tile_h ps lft cw chh tw th (rev [0..<Suc n]) (m, c)
              @ drop c (out_mem m)"
      unfolding unfold IH(1) S(1) by simp
    show "c' + Suc n * record_length (tw, th) = c" using IH(2) S(2) by simp
    show "length (level_records E s tile_w tile_h ps lft cw chh tw th (rev [0..<Suc n]) (m, c))
            = Suc n * record_length (tw, th)"
      unfolding unfold using IH(3) by simp
  qed
qed

lemma highpasses_stream:
  "highpasses E s tile_w tile_h channels ps st = Inr st' \<Longrightarrow>
   (lift st = 0 \<longrightarrow> target_w st = tile_w \<and> target_h st = tile_h
      \<and> channels * stream_length tile_w tile_h \<le> output_cursor st) \<Longrightarrow>
     drop (output_cursor st') (out_mem (memory st'))
       = dwt_records E s tile_w tile_h channels ps st
         @ drop (output_cursor st) (out_mem (memory st))
     \<and> length (dwt_records E s tile_w tile_h channels ps st)
         = channels * sum_list (map record_length (lift_sizes (target_w st) (target_h st)))"
proof (induction E s tile_w tile_h channels ps st rule: highpasses.induct)
  case (1 E s tile_w tile_h channels ps st)
  show ?case
  proof (cases "2 < target_w st \<and> 2 < target_h st")
    case False
    with "1.prems"(1) have "st' = st" by (subst (asm) highpasses.simps) simp
    moreover from False have "dwt_records E s tile_w tile_h channels ps st = []"
      by (subst dwt_records.simps) (simp only: if_False)
    ultimately show ?thesis using False by (simp add: lift_sizes_rec)
  next
    case True
    let ?cw = "target_w st" and ?chh = "target_h st"
    let ?tw = "half_up (target_w st)" and ?th = "half_up (target_h st)"
    let ?step = "lift_channel E s tile_w tile_h ps (lift st) ?cw ?chh ?tw ?th"
    let ?st2 = "\<lambda>mc. \<lparr>lift = lift st + 1, target_w = ?tw, target_h = ?th,
                   output_cursor = snd mc, memory = fst mc\<rparr>"
    from True have big: "2 < ?cw" "2 < ?chh" by simp_all
    from "1.prems"(1) True obtain mc where
      fold: "foldE ?step (channels_down channels) (memory st, output_cursor st) = Inr mc"
      and rec: "highpasses E s tile_w tile_h channels ps (?st2 mc) = Inr st'"
      by (subst (asm) highpasses.simps) (auto simp: Let_def split: sum.splits)
    obtain m1 c1 where mc: "mc = (m1, c1)" by (cases mc)
    have IH: "drop (output_cursor st') (out_mem (memory st'))
                = dwt_records E s tile_w tile_h channels ps (?st2 mc) @ drop c1 (out_mem m1)"
      "length (dwt_records E s tile_w tile_h channels ps (?st2 mc))
         = channels * sum_list (map record_length (lift_sizes ?tw ?th))"
      using "1.IH" [OF True refl refl refl refl fold rec] by (simp_all add: mc)
    let ?K = "stream_length ?cw ?chh"
    have chh: "?chh \<le> 2 * ?th" by (rule half_up_double)
    have th0: "lift st = 0 \<longrightarrow> tile_h \<le> 2 * ?th" using "1.prems"(2) chh by auto
    have K: "lift st = 0 \<longrightarrow> record_length (?tw, ?th) \<le> ?K \<and> tile_w * tile_h \<le> ?K
              \<and> (?th * 2) * (?tw * 2) \<le> ?K"
    proof
      assume z: "lift st = 0"
      with "1.prems"(2) have eq: "tile_w = ?cw" "tile_h = ?chh" by simp_all
      have "record_length (?tw, ?th) \<le> ?K" using True by (simp add: stream_length_rec)
      moreover have "?cw * ?chh \<le> ?K" by (rule stream_length_ge)
      moreover have "4 * (?tw * ?th) < ?K" by (rule stream_length_room [OF big])
      then have "(?th * 2) * (?tw * 2) \<le> ?K" by (simp add: mult.commute)
      ultimately show "record_length (?tw, ?th) \<le> ?K \<and> tile_w * tile_h \<le> ?K
              \<and> (?th * 2) * (?tw * 2) \<le> ?K" by (simp only: eq [symmetric] simp_thms)
    qed
    have cK: "lift st = 0 \<longrightarrow> channels * ?K \<le> output_cursor st"
      using "1.prems"(2) by auto
    from fold have fold': "foldE ?step (rev [0..<channels]) (memory st, output_cursor st)
                             = Inr (m1, c1)"
      by (simp only: channels_down_def mc)
    note L = level_stream [OF chh th0 K fold' cK]
    let ?lv = "level_records E s tile_w tile_h ps (lift st) ?cw ?chh ?tw ?th
                 (channels_down channels) (memory st, output_cursor st)"
    from L have L1: "drop c1 (out_mem m1) = ?lv @ drop (output_cursor st) (out_mem (memory st))"
      and L3: "length ?lv = channels * record_length (?tw, ?th)"
      by (simp_all only: channels_down_def)
    have unfold: "dwt_records E s tile_w tile_h channels ps st
                    = dwt_records E s tile_w tile_h channels ps (?st2 mc) @ ?lv"
      by (subst dwt_records.simps) (simp only: big simp_thms if_True Let_def fold sum.case)
    show ?thesis
    proof
      show "drop (output_cursor st') (out_mem (memory st'))
              = dwt_records E s tile_w tile_h channels ps st
                @ drop (output_cursor st) (out_mem (memory st))"
        unfolding unfold IH(1) L1 by simp
      show "length (dwt_records E s tile_w tile_h channels ps st)
              = channels * sum_list (map record_length (lift_sizes ?cw ?chh))"
        unfolding unfold using IH(2) L3 True by (simp add: lift_sizes_rec distrib_left)
    qed
  qed
qed


lemma drop_spliced_block:
  assumes "c' + length xs = c" "xs = [] \<or> c \<le> length ys"
  shows "drop c' (take c' ys @ xs @ drop c ys) = xs @ drop c ys"
proof (cases "xs = []")
  case True
  with assms(1) have "c' = c" by simp
  with True show ?thesis by (simp only: append_Nil append_take_drop_id)
next
  case False
  with assms show ?thesis by simp
qed

lemma emit_lowpass_stream:
  assumes "emit_lowpass tile_w tile_h ps tw th ch (m, c) = Inr (m', c')"
  shows "in_mem m' = in_mem m"
    and "drop c' (out_mem m')
           = quadrant_rowmajor tw th (in_mem m) (((tile_w * tile_h) + ps) * ch) 0 0
             @ drop c (out_mem m)"
    and "c' + tw * th = c"
proof -
  let ?lp = "((tile_w * tile_h) + ps) * ch"
  let ?blk = "quadrant_rowmajor tw th (in_mem m) ?lp 0 0"
  note R = emit_lowpass_result [OF assms]
  from R(1) show cur: "c' + tw * th = c" .
  from R(2) show "in_mem m' = in_mem m" by simp
  from assms obtain o1 where
    "s2dToLinearH tw th (tw * 2) (in_mem m) ?lp (out_mem m) c' = Inr o1"
    by (auto simp: emit_lowpass_def Let_def bindE_Inr_iff cursor_back_Inr_iff)
  from s2dToLinearH_result(2) [OF this] cur
  have "th * tw = 0 \<or> c \<le> length (out_mem m)" by (auto simp: mult.commute)
  then have fit: "?blk = [] \<or> c \<le> length (out_mem m)"
    by (auto simp only: length_0_conv [symmetric] length_quadrant_rowmajor)
  have len: "c' + length ?blk = c" using cur by (simp add: mult.commute)
  from R(2) have "out_mem m' = take c' (out_mem m) @ ?blk @ drop c (out_mem m)" by simp
  then show "drop c' (out_mem m') = ?blk @ drop c (out_mem m)"
    by (simp only: drop_spliced_block [OF len fit])
qed

lemma lowpass_stream:
  "foldE (emit_lowpass tile_w tile_h ps tw th) (rev [0..<n]) (m, c) = Inr (m', c') \<Longrightarrow>
     in_mem m' = in_mem m
     \<and> drop c' (out_mem m')
         = concat (map (\<lambda>ch. quadrant_rowmajor tw th (in_mem m)
                                (((tile_w * tile_h) + ps) * ch) 0 0) [0..<n])
           @ drop c (out_mem m)
     \<and> c' + n * (tw * th) = c"
proof (induction n arbitrary: m c)
  case 0
  then show ?case by simp
next
  case (Suc n)
  from Suc.prems obtain m1 c1 where
    1: "emit_lowpass tile_w tile_h ps tw th n (m, c) = Inr (m1, c1)"
    and 2: "foldE (emit_lowpass tile_w tile_h ps tw th) (rev [0..<n]) (m1, c1) = Inr (m', c')"
    by (auto split: sum.splits)
  note S = emit_lowpass_stream [OF 1]
  from Suc.IH [OF 2] have IH: "in_mem m' = in_mem m1"
    "drop c' (out_mem m')
         = concat (map (\<lambda>ch. quadrant_rowmajor tw th (in_mem m1)
                                (((tile_w * tile_h) + ps) * ch) 0 0) [0..<n])
           @ drop c1 (out_mem m1)"
    "c' + n * (tw * th) = c1"
    by simp_all
  show ?case
  proof (intro conjI)
    show "in_mem m' = in_mem m" using IH(1) S(1) by simp
    show "drop c' (out_mem m')
         = concat (map (\<lambda>ch. quadrant_rowmajor tw th (in_mem m)
                                (((tile_w * tile_h) + ps) * ch) 0 0) [0..<Suc n])
           @ drop c (out_mem m)"
      unfolding IH(2) S(1) S(2) by simp
    show "c' + Suc n * (tw * th) = c" using IH(3) S(3) by simp
  qed
qed

lemma dwt_emit_stream:
  assumes run: "dwt_emit E s tile_w tile_h channels ps m = Inr st"
  shows "drop (output_cursor st) (out_mem (memory st))
           = dwt_stream E s tile_w tile_h channels ps m
             @ drop (TileTotalLength E tile_w tile_h * channels) (out_mem m)"
    and "length (dwt_stream E s tile_w tile_h channels ps m)
           = channels * stream_length tile_w tile_h"
proof -
  let ?st0 = "\<lparr>lift = 0, target_w = tile_w, target_h = tile_h,
               output_cursor = TileTotalLength E tile_w tile_h * channels, memory = m\<rparr>"
  from run obtain st1 mc where
    hp: "highpasses E s tile_w tile_h channels ps ?st0 = Inr st1"
    and lp: "foldE (emit_lowpass tile_w tile_h ps (target_w st1) (target_h st1))
               (channels_down channels) (memory st1, output_cursor st1) = Inr mc"
    and st: "st = st1\<lparr>output_cursor := snd mc, memory := fst mc\<rparr>"
    by (auto simp: dwt_emit_def bindE_Inr_iff)
  from dwt_emit_result(1) [OF run]
  have total: "channels * stream_length tile_w tile_h \<le> TileTotalLength E tile_w tile_h * channels"
    by linarith
  have "drop (output_cursor st1) (out_mem (memory st1))
          = dwt_records E s tile_w tile_h channels ps ?st0
            @ drop (output_cursor ?st0) (out_mem (memory ?st0))
        \<and> length (dwt_records E s tile_w tile_h channels ps ?st0)
            = channels * sum_list (map record_length (lift_sizes (target_w ?st0) (target_h ?st0)))"
    by (rule highpasses_stream [OF hp]) (simp add: total)
  then have H: "drop (output_cursor st1) (out_mem (memory st1))
          = dwt_records E s tile_w tile_h channels ps ?st0
            @ drop (TileTotalLength E tile_w tile_h * channels) (out_mem m)"
    "length (dwt_records E s tile_w tile_h channels ps ?st0)
            = channels * sum_list (map record_length (lift_sizes tile_w tile_h))"
    by simp_all
  from lp st have lp': "foldE (emit_lowpass tile_w tile_h ps (target_w st1) (target_h st1))
               (rev [0..<channels]) (memory st1, output_cursor st1)
               = Inr (memory st, output_cursor st)"
    by (cases mc) (simp add: channels_down_def)
  from lowpass_stream [OF lp'] have L:
    "drop (output_cursor st) (out_mem (memory st))
       = dwt_lowpasses tile_w tile_h ps channels st1 @ drop (output_cursor st1) (out_mem (memory st1))"
    by (simp add: dwt_lowpasses_def)
  have S: "dwt_stream E s tile_w tile_h channels ps m
             = dwt_lowpasses tile_w tile_h ps channels st1
               @ dwt_records E s tile_w tile_h channels ps ?st0"
    by (simp add: dwt_stream_def Let_def hp)
  from L H(1) show "drop (output_cursor st) (out_mem (memory st))
           = dwt_stream E s tile_w tile_h channels ps m
             @ drop (TileTotalLength E tile_w tile_h * channels) (out_mem m)"
    by (simp add: S)
  from highpasses_result [OF hp]
  have fs: "(target_w st1, target_h st1) = final_size tile_w tile_h" by simp
  then have fs': "fst (final_size tile_w tile_h) = target_w st1"
    "snd (final_size tile_w tile_h) = target_h st1"
    by (simp_all add: prod_eq_iff)
  have "length (dwt_lowpasses tile_w tile_h ps channels st1)
          = channels * (target_w st1 * target_h st1)"
    by (simp add: dwt_lowpasses_def length_concat comp_def sum_list_triv mult.commute)
  with H(2) show "length (dwt_stream E s tile_w tile_h channels ps m)
           = channels * stream_length tile_w tile_h"
    by (simp add: S stream_length_def fs' distrib_left)
qed


section \<open>Properties of the pyramid driver\<close>

text \<open>
  Claim C1, as stated: the coefficients written for a tile are \<open>tile_w * tile_h * channels\<close>
  and the cursor, started at the end of the output, lands on its start. For the
  \<open>4 \<times> 4\<close> tile with one channel an output of \<open>4 * 4 * 1 = 16\<close> slots is too short (the
  cursor would pass the start of the buffer); the driver writes 17 coefficients: four
  lowpass values, one head and three \<open>2 \<times> 2\<close> bands.
\<close>

theorem dwt_count_counterexample:
  "DwtTransform (exact_env Haar 16) (uniform_settings 1 0) 4 4 1 0
     \<lparr>aux_memory = [0, 0, 0, 0, 0, 0, 0, 0],
      in_mem = [100, 100, 100, 100, 100, 100, 100, 100, 100, 100, 100, 100, 100, 100, 100, 100],
      out_mem = [0, 0, 0, 0, 0, 0, 0, 0, 0, 0, 0, 0, 0, 0, 0, 0]\<rparr>
     = Inl OutOfBounds
   \<and> DwtTransform (exact_env Haar 17) (uniform_settings 1 0) 4 4 1 0
     \<lparr>aux_memory = [0, 0, 0, 0, 0, 0, 0, 0],
      in_mem = [100, 100, 100, 100, 100, 100, 100, 100, 100, 100, 100, 100, 100, 100, 100, 100],
      out_mem = [0, 0, 0, 0, 0, 0, 0, 0, 0, 0, 0, 0, 0, 0, 0, 0, 0]\<rparr>
     = Inr \<lparr>aux_memory = [0, 0, 0, 0, 0, 0, 0, 0],
            in_mem = [100, 100, 0, 0, 100, 100, 0, 0, 0, 0, 0, 0, 0, 0, 0, 0],
            out_mem = [100, 100, 100, 100, 1, 0, 0, 0, 0, 0, 0, 0, 0, 0, 0, 0, 0]\<rparr>"
  by code_simp

text \<open>
  Claim C1, amended: in a build with a wavelet, a run of \<^verbatim>\<open>DwtTransform\<close> that passes
  its final assertion has moved the cursor from \<open>TileTotalLength(tile_w, tile_h) * channels\<close>
  to the start of the output, by \<open>channels * stream_length tile_w tile_h\<close> slots, and
  these slots hold, side by side and in this order, the last lowpass of every channel and
  one record of \<open>1 + 3 * target_w * target_h\<close> coefficients for every lift and every
  channel (the list \<open>dwt_stream\<close>: no slot of it is left out and none holds anything
  else); the slots behind them are as they were before the run. For \<open>tile_w > 2\<close>,
  \<open>tile_h > 2\<close> and at least one channel these are more than
  \<open>tile_w * tile_h * channels\<close> slots: every record has a head, and odd sizes are halved
  upwards. That such runs exist on buffers that fit the tile is \<open>DwtTransform_succeeds\<close>
  in the last section.
\<close>

theorem dwt_coefficient_count:
  assumes "AKO_WAVELET E \<noteq> NoWavelet"
    and "DwtTransform E s tile_w tile_h channels planes_space m = Inr m'"
  shows "(\<exists>st. dwt_emit E s tile_w tile_h channels planes_space m = Inr st
            \<and> memory st = m' \<and> output_cursor st = 0)
         \<and> TileTotalLength E tile_w tile_h * channels = channels * stream_length tile_w tile_h
         \<and> out_mem m'
             = dwt_stream E s tile_w tile_h channels planes_space m
               @ drop (channels * stream_length tile_w tile_h) (out_mem m)
         \<and> length (dwt_stream E s tile_w tile_h channels planes_space m)
             = channels * stream_length tile_w tile_h
         \<and> (2 < tile_w \<and> 2 < tile_h \<and> 1 \<le> channels
              \<longrightarrow> tile_w * tile_h * channels < channels * stream_length tile_w tile_h)"
proof -
  from assms obtain st where
    st: "dwt_emit E s tile_w tile_h channels planes_space m = Inr st"
    and fin: "output_cursor st = 0" "memory st = m'"
    by (auto simp: DwtTransform_def bindE_Inr_iff split: if_splits)
  from dwt_emit_result(1) [OF st]
  have "0 + channels * stream_length tile_w tile_h = TileTotalLength E tile_w tile_h * channels"
    by (simp only: fin(1))
  then have total:
    "TileTotalLength E tile_w tile_h * channels = channels * stream_length tile_w tile_h"
    by (simp only: add_0)
  from dwt_emit_stream(1) [OF st]
  have "drop 0 (out_mem m')
          = dwt_stream E s tile_w tile_h channels planes_space m
            @ drop (channels * stream_length tile_w tile_h) (out_mem m)"
    by (simp only: fin total)
  then have out: "out_mem m'
          = dwt_stream E s tile_w tile_h channels planes_space m
            @ drop (channels * stream_length tile_w tile_h) (out_mem m)"
    by (simp only: drop_0)
  note len = dwt_emit_stream(2) [OF st]
  have "tile_w * tile_h * channels < channels * stream_length tile_w tile_h"
    if "2 < tile_w" "2 < tile_h" "1 \<le> channels"
  proof -
    from stream_length_gt [OF that(1,2)] that(3)
    have "channels * (tile_w * tile_h) < channels * stream_length tile_w tile_h"
      by simp
    then show ?thesis by (simp add: mult.commute)
  qed
  with st fin total out len show ?thesis by blast
qed

theorem dwt_coefficient_count_witness:
  "TileTotalLength (exact_env CDF53 17) 4 4 * 1 = 1 * stream_length 4 4
   \<and> [3, 5, 11, 13, 1, 4, 4, 4, 4, 1, 1, 1, 1, 0, 0, 0, 0, 7, 7]
       = dwt_stream (exact_env CDF53 17) (uniform_settings 1 0) 4 4 1 0
           \<lparr>aux_memory = [0, 0, 0, 0, 0, 0, 0, 0],
            in_mem = [1, 2, 3, 4, 5, 6, 7, 8, 9, 10, 11, 12, 13, 14, 15, 16],
            out_mem = [0, 0, 0, 0, 0, 0, 0, 0, 0, 0, 0, 0, 0, 0, 0, 0, 0, 7, 7]\<rparr>
         @ drop (1 * stream_length 4 4) [0, 0, 0, 0, 0, 0, 0, 0, 0, 0, 0, 0, 0, 0, 0, 0, 0, 7, 7]
   \<and> (4::nat) * 4 * 1 < 1 * stream_length 4 4"
proof -
  have w: "AKO_WAVELET (exact_env CDF53 17) \<noteq> NoWavelet" by (simp add: exact_env_def)
  have run: "DwtTransform (exact_env CDF53 17) (uniform_settings 1 0) 4 4 1 0
     \<lparr>aux_memory = [0, 0, 0, 0, 0, 0, 0, 0],
      in_mem = [1, 2, 3, 4, 5, 6, 7, 8, 9, 10, 11, 12, 13, 14, 15, 16],
      out_mem = [0, 0, 0, 0, 0, 0, 0, 0, 0, 0, 0, 0, 0, 0, 0, 0, 0, 7, 7]\<rparr>
     = Inr \<lparr>aux_memory = [1, 1, 1, 1, 1, 1, 0, 0],
            in_mem = [3, 5, 1, 1, 11, 13, 1, 1, 4, 4, 0, 0, 4, 4, 0, 0],
            out_mem = [3, 5, 11, 13, 1, 4, 4, 4, 4, 1, 1, 1, 1, 0, 0, 0, 0, 7, 7]\<rparr>"
    by code_simp
  from dwt_coefficient_count [OF w run] show ?thesis by simp
qed

text \<open>
  Claim C3, as stated: a \<open>5 \<times> 5\<close> tile with one channel takes one lift and yields 25
  coefficients. The run on a constant tile takes two lifts (\<open>5 \<rightarrow> 3 \<rightarrow> 2\<close>, since
  \<open>3 > 2\<close>) and fills 45 slots: a \<open>2 \<times> 2\<close> lowpass, a record of a head and three
  \<open>2 \<times> 2\<close> bands, and a record of a head and three \<open>3 \<times> 3\<close> bands.
\<close>

theorem dwt_5x5_counterexample:
  "dwt_emit (exact_env Haar 45) (uniform_settings 1 0) 5 5 1 11
     \<lparr>aux_memory = [0, 0, 0, 0, 0, 0, 0, 0, 0, 0, 0, 0],
      in_mem = [100, 100, 100, 100, 100, 100, 100, 100, 100, 100, 100, 100, 100, 100, 100,
                100, 100, 100, 100, 100, 100, 100, 100, 100, 100,
                0, 0, 0, 0, 0, 0, 0, 0, 0, 0, 0],
      out_mem = [0, 0, 0, 0, 0, 0, 0, 0, 0, 0, 0, 0, 0, 0, 0, 0, 0, 0, 0, 0, 0, 0, 0, 0, 0,
                 0, 0, 0, 0, 0, 0, 0, 0, 0, 0, 0, 0, 0, 0, 0, 0, 0, 0, 0, 0]\<rparr>
     = Inr \<lparr>lift = 2, target_w = 2, target_h = 2, output_cursor = 0,
            memory =
              \<lparr>aux_memory = [0, 0, 0, 0, 0, 0, 0, 0, 0, 0, 0, 0],
               in_mem = [100, 100, 0, 0, 100, 100, 0, 0, 0, 0, 0, 0, 0, 0, 0, 0, 0,
                         0, 100, 100, 0, 0, 100, 100, 0, 0, 100, 100, 0, 0, 100, 100,
                         0, 0, 0, 0],
               out_mem = [100, 100, 100, 100,
                          1, 0, 0, 0, 0, 0, 0, 0, 0, 0, 0, 0, 0,
                          1, 0, 0, 0, 0, 0, 0, 0, 0, 0, 0, 0, 0, 0, 0, 0, 0, 0, 0, 0,
                          0, 0, 0, 0, 0, 0, 0, 0]\<rparr>\<rparr>"
  by code_simp

text \<open>
  Claim C3, amended: for a \<open>5 \<times> 5\<close> tile with one channel and any kernel, the driver
  performs exactly two lifts, with targets \<open>3 \<times> 3\<close> and \<open>2 \<times> 2\<close>, and moves the cursor by
  \<open>(1 + 3 * 9) + (1 + 3 * 4) + 4 = 45\<close> slots. From the last cursor on the output holds
  the \<open>2 \<times> 2\<close> lowpass quadrant (row by row), the head and the three \<open>2 \<times> 2\<close>
  highpass quadrants of the second lift, the head and the three \<open>3 \<times> 3\<close> highpass
  quadrants of the first lift (quadrants column by column: bottom left, top right, bottom
  right), and then what it held behind the first cursor. The planes are those the two
  steps of the run leave in \<^verbatim>\<open>in\<close>.
\<close>

theorem dwt_5x5_two_lifts:
  assumes "dwt_emit E s 5 5 1 planes_space m = Inr st"
  shows "lift st = 2 \<and> target_w st = 2 \<and> target_h st = 2
         \<and> lift_sizes 5 5 = [(3, 3), (2, 2)]
         \<and> output_cursor st + ((1 + 3 * (3 * 3)) + (1 + 3 * (2 * 2)) + 2 * 2)
             = TileTotalLength E 5 5
         \<and> (\<exists>m1 c1 m2 c2.
               lift_channel E s 5 5 planes_space 0 5 5 3 3 0 (m, TileTotalLength E 5 5)
                 = Inr (m1, c1)
             \<and> lift_channel E s 5 5 planes_space 1 3 3 2 2 0 (m1, c1) = Inr (m2, c2)
             \<and> drop (output_cursor st) (out_mem (memory st))
                 = quadrant_rowmajor 2 2 (in_mem m2) 0 0 0
                   @ [float_to_int16 (fst (quant_gate E s (TileTotalLifts E 5 5) 1 0))]
                   @ quadrant_colmajor 2 2 (in_mem m2) 0 2 0
                   @ quadrant_colmajor 2 2 (in_mem m2) 0 0 2
                   @ quadrant_colmajor 2 2 (in_mem m2) 0 2 2
                   @ [float_to_int16 (fst (quant_gate E s (TileTotalLifts E 5 5) 0 0))]
                   @ quadrant_colmajor 3 3 (in_mem m1) 0 3 0
                   @ quadrant_colmajor 3 3 (in_mem m1) 0 0 3
                   @ quadrant_colmajor 3 3 (in_mem m1) 0 3 3
                   @ drop (TileTotalLength E 5 5) (out_mem m))"
proof -
  have ls: "lift_sizes 5 5 = [(3, 3), (2, 2)]" by code_simp
  have fs: "final_size 5 5 = (2, 2)" by (simp add: final_size_def ls)
  have sl: "stream_length 5 5 = 45" by (simp add: stream_length_def ls fs record_length_def)
  have h5: "half_up 5 = 3" and h3: "half_up 3 = 2" by (simp_all add: half_up_def)
  have cd: "channels_down 1 = [0]" by (simp add: channels_down_def)
  have u1: "[0..<1] = [0::nat]" by simp
  let ?st0 = "\<lparr>lift = 0, target_w = 5, target_h = 5,
               output_cursor = TileTotalLength E 5 5, memory = m\<rparr>"
  let ?step0 = "lift_channel E s 5 5 planes_space 0 5 5 3 3"
  let ?step1 = "lift_channel E s 5 5 planes_space 1 3 3 2 2"
  from assms obtain st1 where hp: "highpasses E s 5 5 1 planes_space ?st0 = Inr st1"
    by (auto simp: dwt_emit_def bindE_Inr_iff simp del: One_nat_def)
  have "highpasses E s 5 5 1 planes_space ?st0
          = (case ?step0 0 (m, TileTotalLength E 5 5) of
               Inl e \<Rightarrow> Inl e
             | Inr mc \<Rightarrow> highpasses E s 5 5 1 planes_space
                 \<lparr>lift = 1, target_w = 3, target_h = 3,
                  output_cursor = snd mc, memory = fst mc\<rparr>)"
    by (subst highpasses.simps) (simp add: Let_def h5 cd split: sum.splits del: One_nat_def)
  with hp obtain m1 c1 where
    s0: "?step0 0 (m, TileTotalLength E 5 5) = Inr (m1, c1)"
    and hp1: "highpasses E s 5 5 1 planes_space
               \<lparr>lift = 1, target_w = 3, target_h = 3, output_cursor = c1, memory = m1\<rparr> = Inr st1"
    by (auto split: sum.splits)
  have "highpasses E s 5 5 1 planes_space
               \<lparr>lift = 1, target_w = 3, target_h = 3, output_cursor = c1, memory = m1\<rparr>
          = (case ?step1 0 (m1, c1) of
               Inl e \<Rightarrow> Inl e
             | Inr mc \<Rightarrow> highpasses E s 5 5 1 planes_space
                 \<lparr>lift = 2, target_w = 2, target_h = 2,
                  output_cursor = snd mc, memory = fst mc\<rparr>)"
    by (subst highpasses.simps) (simp add: Let_def h3 cd split: sum.splits del: One_nat_def)
  with hp1 obtain m2 c2 where
    s1: "?step1 0 (m1, c1) = Inr (m2, c2)"
    and hp2: "highpasses E s 5 5 1 planes_space
               \<lparr>lift = 2, target_w = 2, target_h = 2, output_cursor = c2, memory = m2\<rparr> = Inr st1"
    by (auto split: sum.splits)
  have "highpasses E s 5 5 1 planes_space
               \<lparr>lift = 2, target_w = 2, target_h = 2, output_cursor = c2, memory = m2\<rparr>
          = Inr \<lparr>lift = 2, target_w = 2, target_h = 2, output_cursor = c2, memory = m2\<rparr>"
    by (subst highpasses.simps) simp
  with hp2 have st1: "st1 = \<lparr>lift = 2, target_w = 2, target_h = 2, output_cursor = c2, memory = m2\<rparr>"
    by simp
  have r2: "dwt_records E s 5 5 1 planes_space
              \<lparr>lift = 2, target_w = 2, target_h = 2, output_cursor = c2, memory = m2\<rparr> = []"
    by (subst dwt_records.simps) simp
  have r1: "dwt_records E s 5 5 1 planes_space
              \<lparr>lift = 1, target_w = 3, target_h = 3, output_cursor = c1, memory = m1\<rparr>
            = highpass_record 2 2 (in_mem m2) 0
                (float_to_int16 (fst (quant_gate E s (TileTotalLifts E 5 5) 1 0)))"
    by (subst dwt_records.simps) (simp add: Let_def h3 cd s1 r2 del: One_nat_def)
  have r0: "dwt_records E s 5 5 1 planes_space ?st0
            = highpass_record 2 2 (in_mem m2) 0
                (float_to_int16 (fst (quant_gate E s (TileTotalLifts E 5 5) 1 0)))
              @ highpass_record 3 3 (in_mem m1) 0
                (float_to_int16 (fst (quant_gate E s (TileTotalLifts E 5 5) 0 0)))"
    by (subst dwt_records.simps) (simp add: Let_def h5 cd s0 r1 del: One_nat_def)
  have lw: "dwt_lowpasses 5 5 planes_space 1 st1 = quadrant_rowmajor 2 2 (in_mem m2) 0 0 0"
    by (simp add: dwt_lowpasses_def st1 u1 del: One_nat_def)
  have S: "dwt_stream E s 5 5 1 planes_space m
             = quadrant_rowmajor 2 2 (in_mem m2) 0 0 0
               @ highpass_record 2 2 (in_mem m2) 0
                   (float_to_int16 (fst (quant_gate E s (TileTotalLifts E 5 5) 1 0)))
               @ highpass_record 3 3 (in_mem m1) 0
                   (float_to_int16 (fst (quant_gate E s (TileTotalLifts E 5 5) 0 0)))"
    by (simp add: dwt_stream_def Let_def hp lw r0 del: One_nat_def)
  from dwt_emit_stream(1) [OF assms]
  have "drop (output_cursor st) (out_mem (memory st))
          = dwt_stream E s 5 5 1 planes_space m @ drop (TileTotalLength E 5 5) (out_mem m)"
    by simp
  then have out: "drop (output_cursor st) (out_mem (memory st))
                 = quadrant_rowmajor 2 2 (in_mem m2) 0 0 0
                   @ [float_to_int16 (fst (quant_gate E s (TileTotalLifts E 5 5) 1 0))]
                   @ quadrant_colmajor 2 2 (in_mem m2) 0 2 0
                   @ quadrant_colmajor 2 2 (in_mem m2) 0 0 2
                   @ quadrant_colmajor 2 2 (in_mem m2) 0 2 2
                   @ [float_to_int16 (fst (quant_gate E s (TileTotalLifts E 5 5) 0 0))]
                   @ quadrant_colmajor 3 3 (in_mem m1) 0 3 0
                   @ quadrant_colmajor 3 3 (in_mem m1) 0 0 3
                   @ quadrant_colmajor 3 3 (in_mem m1) 0 3 3
                   @ drop (TileTotalLength E 5 5) (out_mem m)"
    by (simp only: S highpass_record_def append_Cons append_Nil append_assoc)
  from dwt_emit_result [OF assms] ls fs sl
  have base: "lift st = 2 \<and> target_w st = 2 \<and> target_h st = 2
         \<and> lift_sizes 5 5 = [(3, 3), (2, 2)]
         \<and> output_cursor st + ((1 + 3 * (3 * 3)) + (1 + 3 * (2 * 2)) + 2 * 2)
             = TileTotalLength E 5 5"
    by simp
  from s0 s1 out have "\<exists>m1 c1 m2 c2.
               lift_channel E s 5 5 planes_space 0 5 5 3 3 0 (m, TileTotalLength E 5 5)
                 = Inr (m1, c1)
             \<and> lift_channel E s 5 5 planes_space 1 3 3 2 2 0 (m1, c1) = Inr (m2, c2)
             \<and> drop (output_cursor st) (out_mem (memory st))
                 = quadrant_rowmajor 2 2 (in_mem m2) 0 0 0
                   @ [float_to_int16 (fst (quant_gate E s (TileTotalLifts E 5 5) 1 0))]
                   @ quadrant_colmajor 2 2 (in_mem m2) 0 2 0
                   @ quadrant_colmajor 2 2 (in_mem m2) 0 0 2
                   @ quadrant_colmajor 2 2 (in_mem m2) 0 2 2
                   @ [float_to_int16 (fst (quant_gate E s (TileTotalLifts E 5 5) 0 0))]
                   @ quadrant_colmajor 3 3 (in_mem m1) 0 3 0
                   @ quadrant_colmajor 3 3 (in_mem m1) 0 0 3
                   @ quadrant_colmajor 3 3 (in_mem m1) 0 3 3
                   @ drop (TileTotalLength E 5 5) (out_mem m)"
    by (intro exI conjI)
  with base show ?thesis by (simp only: simp_thms)
qed

theorem dwt_5x5_two_lifts_witness:
  "lift \<lparr>lift = 2, target_w = 2, target_h = 2, output_cursor = 0,
            memory =
              \<lparr>aux_memory = [0, 0, 0, 0, 0, 0, 0, 0, 0, 0, 0, 0],
               in_mem = [7, 10, 2, 0, 25, 28, 2, 0, 11, 11, 0, 0, 0, 0, 0, 0, 1, 0,
                         2, 5, 2, 0, 13, 16, 2, 0, 23, 26, 2, 0, 23, 26, 2, 0, 0, 0],
               out_mem = [7, 10, 25, 28,
                          1, 11, 0, 11, 0, 2, 2, 0, 0, 0, 0, 0, 0,
                          1, 0, 5, 0, 0, 5, 0, 0, 5, 0, 0, 0, 0, 1, 1, 1, 0, 0, 0, 0,
                          0, 0, 0, 0, 0, 0, 0, 0]\<rparr>\<rparr> = 2
   \<and> TileTotalLength (exact_env CDF53 45) 5 5 = 45"
proof -
  have run: "dwt_emit (exact_env CDF53 45) (uniform_settings 1 0) 5 5 1 11
     \<lparr>aux_memory = [0, 0, 0, 0, 0, 0, 0, 0, 0, 0, 0, 0],
      in_mem = [1, 2, 3, 4, 5, 6, 7, 8, 9, 10, 11, 12, 13, 14, 15,
                16, 17, 18, 19, 20, 21, 22, 23, 24, 25,
                0, 0, 0, 0, 0, 0, 0, 0, 0, 0, 0],
      out_mem = [0, 0, 0, 0, 0, 0, 0, 0, 0, 0, 0, 0, 0, 0, 0, 0, 0, 0, 0, 0, 0, 0, 0, 0, 0,
                 0, 0, 0, 0, 0, 0, 0, 0, 0, 0, 0, 0, 0, 0, 0, 0, 0, 0, 0, 0]\<rparr>
     = Inr \<lparr>lift = 2, target_w = 2, target_h = 2, output_cursor = 0,
            memory =
              \<lparr>aux_memory = [0, 0, 0, 0, 0, 0, 0, 0, 0, 0, 0, 0],
               in_mem = [7, 10, 2, 0, 25, 28, 2, 0, 11, 11, 0, 0, 0, 0, 0, 0, 1, 0,
                         2, 5, 2, 0, 13, 16, 2, 0, 23, 26, 2, 0, 23, 26, 2, 0, 0, 0],
               out_mem = [7, 10, 25, 28,
                          1, 11, 0, 11, 0, 2, 2, 0, 0, 0, 0, 0, 0,
                          1, 0, 5, 0, 0, 5, 0, 0, 5, 0, 0, 0, 0, 1, 1, 1, 0, 0, 0, 0,
                          0, 0, 0, 0, 0, 0, 0, 0]\<rparr>\<rparr>"
    by code_simp
  from dwt_5x5_two_lifts [OF run] show ?thesis by simp
qed

text \<open>
  Claim C4, as stated: the record is the head followed by the top right quadrant (HL), the
  bottom left quadrant (LH) and the bottom right quadrant (HH). In the run below the plane
  after the lift has the top right quadrant \<open>4, 4, 13, 13\<close> and the bottom left quadrant
  \<open>4, 4, 4, 4\<close> (both column by column), and the record in the stream, after the head
  \<open>1\<close>, starts with the bottom left quadrant.
\<close>

theorem record_order_counterexample:
  "DwtTransform (exact_env Haar 17) (uniform_settings 1 0) 4 4 1 0
     \<lparr>aux_memory = [0, 0, 0, 0, 0, 0, 0, 0],
      in_mem = [2, 10, 4, 30, 10, 18, 12, 38, 2, 10, 4, 30, 10, 18, 12, 38],
      out_mem = [0, 0, 0, 0, 0, 0, 0, 0, 0, 0, 0, 0, 0, 0, 0, 0, 0]\<rparr>
     = Inr \<lparr>aux_memory = [13, 13, 13, 13, 13, 13, 0, 0],
            in_mem = [10, 21, 4, 13, 10, 21, 4, 13, 4, 4, 0, 0, 4, 4, 0, 0],
            out_mem = [10, 21, 10, 21, 1, 4, 4, 4, 4, 4, 4, 13, 13, 0, 0, 0, 0]\<rparr>
   \<and> quadrant_colmajor 2 2 [10, 21, 4, 13, 10, 21, 4, 13, 4, 4, 0, 0, 4, 4, 0, 0] 0 0 2
       = [4, 4, 13, 13]
   \<and> quadrant_colmajor 2 2 [10, 21, 4, 13, 10, 21, 4, 13, 4, 4, 0, 0, 4, 4, 0, 0] 0 2 0
       = [4, 4, 4, 4]"
  by code_simp

text \<open>
  Claim C4, amended: at each lift and channel the driver fills the slots between the new
  and the old cursor with one record: the head (the quantization step \<open>q\<close>, as the
  \<^verbatim>\<open>int16_t\<close> passed to the lift), then the bottom left quadrant (LH, ``C'' in the source),
  then the top right quadrant (HL, ``B''), then the bottom right quadrant (HH, ``D''), each
  flattened column by column.
\<close>

theorem highpass_record_layout:
  assumes "lift_channel E s tile_w tile_h planes_space lft cw chh tw th ch (m, c) = Inr (m', c')"
  shows "c' + (1 + 3 * (tw * th)) = c \<and> c \<le> length (out_mem m')
         \<and> take (1 + 3 * (tw * th)) (drop c' (out_mem m'))
             = float_to_int16 (fst (quant_gate E s (TileTotalLifts E tile_w tile_h) lft ch))
               # quadrant_colmajor tw th (in_mem m') (((tile_w * tile_h) + planes_space) * ch) th 0
               @ quadrant_colmajor tw th (in_mem m') (((tile_w * tile_h) + planes_space) * ch) 0 tw
               @ quadrant_colmajor tw th (in_mem m') (((tile_w * tile_h) + planes_space) * ch) th tw"
proof -
  let ?lp = "((tile_w * tile_h) + planes_space) * ch"
  let ?q = "float_to_int16 (fst (quant_gate E s (TileTotalLifts E tile_w tile_h) lft ch))"
  from assms obtain m1 where
    em: "emit_highpasses tw th ?lp ?q (m1, c) = Inr (m', c')"
    by (auto simp: lift_channel_def Let_def bindE_Inr_iff split: prod.splits)
  note R = emit_highpasses_result [OF em]
  let ?rec = "?q # quadrant_colmajor tw th (in_mem m1) ?lp th 0
                 @ quadrant_colmajor tw th (in_mem m1) ?lp 0 tw
                 @ quadrant_colmajor tw th (in_mem m1) ?lp th tw"
  from R(3) have im: "in_mem m' = in_mem m1"
    and om: "out_mem m' = take c' (out_mem m1) @ ?rec @ drop c (out_mem m1)"
    by simp_all
  from R(1) have cur: "c' + (1 + 3 * (tw * th)) = c" by (simp add: record_length_def)
  have lrec: "length ?rec = 1 + 3 * (tw * th)" by simp
  from cur R(2) have c': "c' \<le> length (out_mem m1)" by simp
  then have lt: "length (take c' (out_mem m1)) = c'" by simp
  from om lrec lt cur R(2) have len: "length (out_mem m') = length (out_mem m1)" by simp
  have "drop c' (out_mem m') = ?rec @ drop c (out_mem m1)"
    by (subst om) (simp add: c' min_absorb2)
  then have "take (1 + 3 * (tw * th)) (drop c' (out_mem m')) = ?rec"
    using lrec by simp
  with im cur len R(2) show ?thesis by simp
qed

theorem highpass_record_layout_witness:
  "take (1 + 3 * (2 * 2)) (drop 4 [6, 17, 4, 13, 1, 4, 4, 4, 4, 4, 4, 13, 13, 0, 0, 0, 0])
     = [1, 4, 4, 4, 4, 4, 4, 13, 13, 0, 0, 0, (0 :: int16)]"
proof -
  have run: "lift_channel (exact_env Haar 17) (uniform_settings 1 0) 4 4 0 0 4 4 2 2 0
     (\<lparr>aux_memory = [0, 0, 0, 0, 0, 0, 0, 0],
       in_mem = [2, 10, 4, 30, 10, 18, 12, 38, 2, 10, 4, 30, 10, 18, 12, 38],
       out_mem = [0, 0, 0, 0, 0, 0, 0, 0, 0, 0, 0, 0, 0, 0, 0, 0, 0]\<rparr>, 17)
     = Inr (\<lparr>aux_memory = [13, 13, 13, 13, 13, 13, 0, 0],
             in_mem = [10, 21, 4, 13, 10, 21, 4, 13, 4, 4, 0, 0, 4, 4, 0, 0],
             out_mem = [6, 17, 4, 13, 1, 4, 4, 4, 4, 4, 4, 13, 13, 0, 0, 0, 0]\<rparr>, 4)"
    by code_simp
  have q: "quadrant_colmajor 2 2 [10, 21, 4, 13, 10, 21, 4, 13, 4, 4, 0, 0, 4, 4, 0, 0] 0 2 0
             = [4, 4, 4, 4]"
    "quadrant_colmajor 2 2 [10, 21, 4, 13, 10, 21, 4, 13, 4, 4, 0, 0, 4, 4, 0, 0] 0 0 2
             = [4, 4, 13, 13]"
    "quadrant_colmajor 2 2 [10, 21, 4, 13, 10, 21, 4, 13, 4, 4, 0, 0, 4, 4, 0, 0] 0 2 2
             = [0, 0, 0, 0]"
    by code_simp+
  have h: "float_to_int16 (fst (quant_gate (exact_env Haar 17) (uniform_settings 1 0)
             (TileTotalLifts (exact_env Haar 17) 4 4) 0 0)) = 1"
    by code_simp
  from highpass_record_layout [OF run] show ?thesis by (simp add: q h)
qed

section \<open>The quantization step passed to the kernel\<close>

subsection \<open>Bounds of the step\<close>

lemma halve_eq: "halve n x = x / 2 ^ n"
  by (induction n arbitrary: x) simp_all

lemma halve_le: "0 \<le> x \<Longrightarrow> halve n x \<le> x"
proof -
  assume x: "0 \<le> x"
  have "(1::real) \<le> 2 ^ n" by simp
  with x have "x / 2 ^ n \<le> x / 1" by (intro divide_left_mono) simp_all
  then show ?thesis by (simp add: halve_eq)
qed

lemma quant_gate_bounds:
  "1 \<le> fst (quant_gate E s tls lft ch)"
  "fst (quant_gate E s tls lft ch) \<le> max 1 (quantization s ch)"
proof -
  let ?u = "if quantization s ch < 1 then 1 else quantization s ch"
  have q: "fst (quant_gate E s tls lft ch) = (if halve lft ?u < 1 then 1 else halve lft ?u)"
    by (simp add: quant_gate_def Let_def)
  show "1 \<le> fst (quant_gate E s tls lft ch)" unfolding q by simp
  have "halve lft ?u \<le> ?u" by (rule halve_le) simp
  then show "fst (quant_gate E s tls lft ch) \<le> max 1 (quantization s ch)"
    unfolding q by auto
qed

lemma sint_float_to_int16:
  assumes "1 \<le> x" "x < 32768"
  shows "sint (float_to_int16 x) = \<lfloor>x\<rfloor>" and "1 \<le> \<lfloor>x\<rfloor>"
proof -
  from assms(1) show lo: "1 \<le> \<lfloor>x\<rfloor>" by simp
  from assms(2) have hi: "\<lfloor>x\<rfloor> < 32768" by (simp add: floor_less_iff)
  from lo hi have "signed_take_bit 15 \<lfloor>x\<rfloor> = \<lfloor>x\<rfloor>"
    by (intro signed_take_bit_int_eq_self) simp_all
  with assms(1) show "sint (float_to_int16 x) = \<lfloor>x\<rfloor>"
    by (simp add: float_to_int16_def sint_sbintrunc')
qed

lemma quant_step_positive:
  assumes "quantization s ch < 32768"
  shows "1 \<le> sint (float_to_int16 (fst (quant_gate E s tls lft ch)))"
proof -
  from quant_gate_bounds [of E s tls lft ch] assms
  have "1 \<le> fst (quant_gate E s tls lft ch)" "fst (quant_gate E s tls lft ch) < 32768"
    by auto
  from sint_float_to_int16 [OF this] show ?thesis by simp
qed

subsection \<open>Where a division by zero can come from\<close>

lemma bindE_no_div:
  assumes "m \<noteq> Inl DivByZero" and "\<And>x. m = Inr x \<Longrightarrow> f x \<noteq> Inl DivByZero"
  shows "bindE m f \<noteq> Inl DivByZero"
  using assms by (cases m) simp_all



lemma rd_no_div [simp]: "rd xs i \<noteq> Inl DivByZero"
  by (simp add: rd_def)

lemma wr_no_div [simp]: "wr xs i v \<noteq> Inl DivByZero"
  by (simp add: wr_def)

lemma copy_no_div [simp]: "bindE (rd xs i) (wr ys j) \<noteq> Inl DivByZero"
  by (rule bindE_no_div) simp_all





lemma rd_ptr_no_div [simp]: "rd_ptr m p i \<noteq> Inl DivByZero"
  by (simp add: rd_ptr_def)

lemma wr_ptr_no_div [simp]: "wr_ptr m p i v \<noteq> Inl DivByZero"
  unfolding wr_ptr_def by (intro bindE_no_div) simp_all

lemma wr_aux_no_div [simp]: "wr_aux m i v \<noteq> Inl DivByZero"
  unfolding wr_aux_def by (intro bindE_no_div) simp_all









lemma cursor_back_no_div [simp]: "cursor_back c n \<noteq> Inl DivByZero"
  by (simp add: cursor_back_def)









section \<open>The tile loop of the decoder\<close>

lemma decode_tile_effect:
  "(col st + tiles_size > width \<or> row st + tiles_size > height \<longrightarrow>
      (\<exists>st'. decode_tile D inp width height channels tiles_size i st = Inr st'
         \<and> blob st' = blob st \<and> image_memory st' = image_memory st
         \<and> tile_memory st' = tile_memory st))
   \<and> (\<not> (col st + tiles_size > width \<or> row st + tiles_size > height)
        \<and> blob st + 2 * tiles_size * tiles_size * channels \<le> length inp \<longrightarrow>
      (\<exists>st'. decode_tile D inp width height channels tiles_size i st = Inr st'
         \<and> blob st' = blob st + 2 * tiles_size * tiles_size * channels
         \<and> tile_memory st' = take (2 * tiles_size * tiles_size * channels) (drop (blob st) inp)
         \<and> image_memory st' =
             FormatToInterlacedU8RGB D tiles_size channels width
               (take (2 * tiles_size * tiles_size * channels) (drop (blob st) inp))
               ((width * row st + col st) * channels) (image_memory st)))"
  by (simp add: decode_tile_def Let_def)

lemma tiles_per_row_covers:
  assumes "0 < ts"
  shows "width \<le> k * ts \<longleftrightarrow> tiles_per_row width ts \<le> k"
proof
  assume le: "tiles_per_row width ts \<le> k"
  have "width \<le> tiles_per_row width ts * ts"
  proof (cases "width mod ts = 0")
    case True
    have "width = width div ts * ts + width mod ts" by simp
    with True have "width = width div ts * ts" by simp
    with True show ?thesis by (simp add: tiles_per_row_def)
  next
    case False
    from assms have "width mod ts < ts" by simp
    moreover have "width = width div ts * ts + width mod ts" by simp
    ultimately have "width \<le> width div ts * ts + ts" by linarith
    with False show ?thesis by (simp add: tiles_per_row_def)
  qed
  also from le have "\<dots> \<le> k * ts" by (rule mult_le_mono1)
  finally show "width \<le> k * ts" .
next
  assume le: "width \<le> k * ts"
  show "tiles_per_row width ts \<le> k"
  proof (rule ccontr)
    assume "\<not> tiles_per_row width ts \<le> k"
    then have lt: "k < tiles_per_row width ts" by simp
    have "k * ts < width"
    proof (cases "width mod ts = 0")
      case True
      with lt have "Suc k \<le> width div ts" by (simp add: tiles_per_row_def)
      then have "Suc k * ts \<le> width div ts * ts" by (rule mult_le_mono1)
      also have "\<dots> \<le> width" by simp
      finally show ?thesis using assms by simp
    next
      case False
      with lt have "k \<le> width div ts" by (simp add: tiles_per_row_def)
      then have "k * ts \<le> width div ts * ts" by (rule mult_le_mono1)
      moreover have "width = width div ts * ts + width mod ts" by simp
      moreover from False have "0 < width mod ts" by simp
      ultimately show ?thesis by linarith
    qed
    with le show False by simp
  qed
qed

lemma decode_tile_position:
  assumes "decode_tile D inp width height channels ts i st = Inr st'"
  shows "col st' = (if width \<le> col st + ts then 0 else col st + ts)"
    and "row st' = (if width \<le> col st + ts then row st + ts else row st)"
  using assms
  by (auto simp: decode_tile_def Let_def bindE_Inr_iff split: if_splits)

lemma decode_loop_position:
  assumes "0 < ts" "0 < width"
    and "for_loop i (decode_tile D inp width height channels ts) st0 = Inr st"
    and "col st0 = 0" "row st0 = 0"
  shows "col st = (i mod tiles_per_row width ts) * ts
         \<and> row st = (i div tiles_per_row width ts) * ts"
proof -
  let ?gw = "tiles_per_row width ts"
  from tiles_per_row_covers [OF assms(1), of width 0] assms(2) have gw: "0 < ?gw" by simp
  show ?thesis
  proof (rule for_loop_inv [OF assms(3),
        where P = "\<lambda>k t. col t = (k mod ?gw) * ts \<and> row t = (k div ?gw) * ts"])
    show "col st0 = (0 mod ?gw) * ts \<and> row st0 = (0 div ?gw) * ts"
      using assms(4,5) by simp
  next
    fix k t t'
    assume P: "col t = (k mod ?gw) * ts \<and> row t = (k div ?gw) * ts"
      and step: "decode_tile D inp width height channels ts k t = Inr t'"
    have wrap: "width \<le> col t + ts \<longleftrightarrow> Suc (k mod ?gw) = ?gw"
    proof -
      have "col t + ts = Suc (k mod ?gw) * ts" using P by simp
      then have "width \<le> col t + ts \<longleftrightarrow> ?gw \<le> Suc (k mod ?gw)"
        using tiles_per_row_covers [OF assms(1), of width "Suc (k mod ?gw)"] by (simp only:)
      moreover from gw have "k mod ?gw < ?gw" by simp
      ultimately show ?thesis by auto
    qed
    show "col t' = (Suc k mod ?gw) * ts \<and> row t' = (Suc k div ?gw) * ts"
    proof (cases "Suc (k mod ?gw) = ?gw")
      case True
      with wrap decode_tile_position [OF step] P
      show ?thesis by (simp add: mod_Suc div_Suc)
    next
      case False
      with wrap decode_tile_position [OF step] P
      show ?thesis by (simp add: mod_Suc div_Suc)
    qed
  qed
qed

lemma sTilesNo_grid:
  "0 < ts \<Longrightarrow> sTilesNo width height ts = Inr (tiles_per_row width ts * tiles_per_row height ts)"
  by (simp add: sTilesNo_def tiles_per_row_def Let_def)

text \<open>
  Claim C9: in the loop of \<^verbatim>\<open>AkoDecode\<close> over an image of positive width, turn \<open>i\<close> is
  at the grid cell in column \<open>i mod tiles_per_row\<close> and row \<open>i div tiles_per_row\<close>. If the
  tile of that cell extends past the width or the height, the turn leaves the read position
  in the input, the image memory and the tile memory as they are; otherwise (with
  enough input left) it reads one tile of \<open>2 * tiles_size * tiles_size * channels\<close> bytes
  and hands it to the format step at the cell's offset in the image.
\<close>

theorem partial_tiles_skipped:
  assumes "0 < tiles_size" and "0 < width"
    and "for_loop i (decode_tile D inp width height channels tiles_size) st0 = Inr st"
    and "col st0 = 0" and "row st0 = 0"
  shows "col st = (i mod tiles_per_row width tiles_size) * tiles_size
         \<and> row st = (i div tiles_per_row width tiles_size) * tiles_size
         \<and> (col st + tiles_size > width \<or> row st + tiles_size > height \<longrightarrow>
              (\<exists>st'. decode_tile D inp width height channels tiles_size i st = Inr st'
                 \<and> blob st' = blob st \<and> image_memory st' = image_memory st
                 \<and> tile_memory st' = tile_memory st))
         \<and> (\<not> (col st + tiles_size > width \<or> row st + tiles_size > height)
              \<and> blob st + 2 * tiles_size * tiles_size * channels \<le> length inp \<longrightarrow>
              (\<exists>st'. decode_tile D inp width height channels tiles_size i st = Inr st'
                 \<and> blob st' = blob st + 2 * tiles_size * tiles_size * channels
                 \<and> image_memory st' =
                     FormatToInterlacedU8RGB D tiles_size channels width
                       (take (2 * tiles_size * tiles_size * channels) (drop (blob st) inp))
                       ((width * row st + col st) * channels) (image_memory st)))"
proof -
  from decode_loop_position [OF assms]
  have pos: "col st = (i mod tiles_per_row width tiles_size) * tiles_size"
    "row st = (i div tiles_per_row width tiles_size) * tiles_size"
    by simp_all
  from decode_tile_effect [where st = st and tiles_size = tiles_size and width = width
      and height = height and D = D and inp = inp and channels = channels and i = i]
  have eff: "col st + tiles_size > width \<or> row st + tiles_size > height \<longrightarrow>
              (\<exists>st'. decode_tile D inp width height channels tiles_size i st = Inr st'
                 \<and> blob st' = blob st \<and> image_memory st' = image_memory st
                 \<and> tile_memory st' = tile_memory st)"
    "\<not> (col st + tiles_size > width \<or> row st + tiles_size > height)
              \<and> blob st + 2 * tiles_size * tiles_size * channels \<le> length inp \<longrightarrow>
              (\<exists>st'. decode_tile D inp width height channels tiles_size i st = Inr st'
                 \<and> blob st' = blob st + 2 * tiles_size * tiles_size * channels
                 \<and> image_memory st' =
                     FormatToInterlacedU8RGB D tiles_size channels width
                       (take (2 * tiles_size * tiles_size * channels) (drop (blob st) inp))
                       ((width * row st + col st) * channels) (image_memory st))"
    by blast+
  from pos eff show ?thesis by blast
qed

theorem partial_tiles_skipped_witness:
  "for_loop 1 (decode_tile skip_demo_env [1, 2, 3, 4, 5, 6, 7, 8] 3 2 1 2)
       \<lparr>col = 0, row = 0, blob = 0, tile_memory = [0, 0, 0, 0, 0, 0, 0, 0],
        image_memory = [0, 0, 0, 0, 0, 0]\<rparr>
     = Inr \<lparr>col = 2, row = 0, blob = 8, tile_memory = [1, 2, 3, 4, 5, 6, 7, 8],
            image_memory = [1, 0, 0, 0, 0, 0]\<rparr>
   \<and> decode_tile skip_demo_env [1, 2, 3, 4, 5, 6, 7, 8] 3 2 1 2 1
       \<lparr>col = 2, row = 0, blob = 8, tile_memory = [1, 2, 3, 4, 5, 6, 7, 8],
        image_memory = [1, 0, 0, 0, 0, 0]\<rparr>
     = Inr \<lparr>col = 0, row = 2, blob = 8, tile_memory = [1, 2, 3, 4, 5, 6, 7, 8],
            image_memory = [1, 0, 0, 0, 0, 0]\<rparr>"
proof -
  let ?inp = "[1, 2, 3, 4, 5, 6, 7, 8] :: byte list"
  let ?s0 = "\<lparr>col = 0, row = 0, blob = 0, tile_memory = [0, 0, 0, 0, 0, 0, 0, 0 :: byte],
        image_memory = [0, 0, 0, 0, 0, 0 :: byte]\<rparr>"
  let ?s1 = "\<lparr>col = 2, row = 0, blob = 8, tile_memory = ?inp,
        image_memory = [1, 0, 0, 0, 0, 0 :: byte]\<rparr>"
  have run: "for_loop 1 (decode_tile skip_demo_env ?inp 3 2 1 2) ?s0 = Inr ?s1"
    by code_simp
  have ts: "(0::nat) < 2" and w: "(0::nat) < 3" by simp_all
  have c0: "col ?s0 = 0" and r0: "row ?s0 = 0" by simp_all
  from partial_tiles_skipped [OF ts w run c0 r0]
  obtain st' where st': "decode_tile skip_demo_env ?inp 3 2 1 2 1 ?s1 = Inr st'"
    "blob st' = blob ?s1" "image_memory st' = image_memory ?s1"
    "tile_memory st' = tile_memory ?s1"
    by auto
  moreover have "decode_tile skip_demo_env ?inp 3 2 1 2 1 ?s1
      = Inr \<lparr>col = 0, row = 2, blob = 8, tile_memory = ?inp,
            image_memory = [1, 0, 0, 0, 0, 0]\<rparr>"
    by code_simp
  ultimately show ?thesis using run by simp
qed

section \<open>The transform succeeds on buffers that fit the tile\<close>

text \<open>
  With a quantization step in the range of \<^verbatim>\<open>int16_t\<close>, a tile wider and taller than two
  and buffers that fit it, no read or write of \<^verbatim>\<open>DwtTransform\<close> leaves its buffer, no
  division has a zero divisor, and the final assertion holds.
\<close>


lemma same_lengths_refl [simp]: "same_lengths m m"
  by (simp add: same_lengths_def)

lemma same_lengths_trans: "same_lengths a b \<Longrightarrow> same_lengths b c \<Longrightarrow> same_lengths a c"
  by (simp add: same_lengths_def)

lemma same_lengths_buf: "same_lengths t m \<Longrightarrow> length (buf_get t b) = length (buf_get m b)"
  by (cases b) (simp_all add: same_lengths_def buf_get_def)

lemma same_lengths_aux: "same_lengths t m \<Longrightarrow> length (aux_memory t) = length (aux_memory m)"
  by (simp add: same_lengths_def)

lemma buf_put_same_lengths:
  "length xs = length (buf_get t b) \<Longrightarrow> same_lengths (buf_put t b xs) t"
  by (cases b) (simp_all add: same_lengths_def buf_get_def buf_put_def)

lemma for_loop_same_lengths:
  assumes "\<And>i t. i < n \<Longrightarrow> same_lengths t m \<Longrightarrow> \<exists>t'. body i t = Inr t' \<and> same_lengths t' m"
  shows "\<exists>m'. for_loop n body m = Inr m' \<and> same_lengths m' m"
  by (rule for_loop_total [where P = "\<lambda>k t. same_lengths t m"]) (use assms in auto)

lemma wr_aux_total:
  "i < length (aux_memory t) \<Longrightarrow> \<exists>t'. wr_aux t i v = Inr t' \<and> same_lengths t' t"
  by (simp add: wr_aux_def wr_def same_lengths_def)

lemma wr_ptr_total:
  "snd p + i < length (buf_get t (fst p)) \<Longrightarrow> \<exists>t'. wr_ptr t p i v = Inr t' \<and> same_lengths t' t"
  by (simp add: wr_ptr_def wr_def buf_put_same_lengths)

lemma rd_ptr_total:
  "snd p + i < length (buf_get t (fst p)) \<Longrightarrow> \<exists>v. rd_ptr t p i = Inr v"
  by (simp add: rd_ptr_def rd_def)

lemma to_aux_total:
  assumes "snd p + i < length (buf_get t (fst p))" "j < length (aux_memory t)"
  shows "\<exists>t'. bindE (rd_ptr t p i) (wr_aux t j) = Inr t' \<and> same_lengths t' t"
  using rd_ptr_total [OF assms(1)] wr_aux_total [OF assms(2)] by auto

lemma from_aux_total:
  assumes "j < length (aux_memory t)" "snd p + i < length (buf_get t (fst p))"
  shows "\<exists>t'. bindE (rd (aux_memory t) j) (wr_ptr t p i) = Inr t' \<and> same_lengths t' t"
  using wr_ptr_total [OF assms(2)] assms(1) by (auto simp: rd_def)

lemma ptr_to_ptr_total:
  assumes "snd p + i < length (buf_get t (fst p))" "snd p' + j < length (buf_get t (fst p'))"
  shows "\<exists>t'. bindE (rd_ptr t p i) (wr_ptr t p' j) = Inr t' \<and> same_lengths t' t"
  using rd_ptr_total [OF assms(1)] wr_ptr_total [OF assms(2)] by auto

lemma memcpy_ptr_total:
  assumes "snd src + n \<le> length (buf_get m (fst src))" "snd dst + n \<le> length (buf_get m (fst dst))"
  shows "\<exists>m'. memcpy_ptr m dst src n = Inr m' \<and> same_lengths m' m"
  unfolding memcpy_ptr_def
proof (rule for_loop_same_lengths)
  fix i t assume i: "i < n" and sl: "same_lengths t m"
  from i assms sl have "snd src + i < length (buf_get t (fst src))"
    "snd dst + i < length (buf_get t (fst dst))"
    by (simp_all add: same_lengths_buf)
  from ptr_to_ptr_total [OF this] sl
  show "\<exists>t'. bindE (rd_ptr t src i) (wr_ptr t dst i) = Inr t' \<and> same_lengths t' m"
    by (blast intro: same_lengths_trans)
qed

lemma sLift1d_rows_total:
  assumes "sint q \<noteq> 0" "len \<noteq> 1" "2 * len \<le> length (aux_memory t)"
    and "snd out + 2 * len \<le> length (buf_get t (fst out))"
  shows "\<exists>t'. sLift1d_rows w rnd q g len t out = Inr t' \<and> same_lengths t' t"
proof -
  let ?xs = "buf_get t (fst out)"
  from assms(4) have v: "2 * len \<le> length (drop (snd out) ?xs)" by simp
  from sLift1d_total [OF v assms(3,2,1)] obtain r where
    r: "sLift1d w rnd q g len (aux_memory t) (drop (snd out) ?xs) = Inr r" by blast
  from sLift1d_result(1) [OF r] assms(4)
  have "length (take (snd out) ?xs @ r) = length ?xs" by simp
  from buf_put_same_lengths [OF this] r show ?thesis
    by (simp add: sLift1d_rows_def Let_def)
qed

lemma sLift1d_cols_total:
  assumes "sint q \<noteq> 0" "len \<noteq> 1" "4 * len \<le> length (aux_memory t)"
  shows "\<exists>t'. sLift1d_cols w rnd q g len t = Inr t' \<and> same_lengths t' t"
proof -
  let ?xs = "aux_memory t"
  from assms(3) have v: "2 * len \<le> length (drop (len * 2) ?xs)" "2 * len \<le> length ?xs"
    by simp_all
  from sLift1d_total [OF v assms(2,1)] obtain r where
    r: "sLift1d w rnd q g len ?xs (drop (len * 2) ?xs) = Inr r" by blast
  from sLift1d_result(1) [OF r] assms(3)
  have "length (take (len * 2) ?xs @ r) = length ?xs" by simp
  with r show ?thesis
    by (simp add: sLift1d_cols_def Let_def same_lengths_def)
qed



lemma lift_row_total:
  assumes q: "sint q \<noteq> 0" and tw: "2 \<le> tw" and cw: "0 < cw" "cw \<le> 2 * tw"
    and aux: "2 * tw \<le> length (aux_memory t)"
    and A: "snd a + rw * (cw + pitch) + cw \<le> length (buf_get t (fst a))"
    and B: "snd b + rw * (tw * 2) + 2 * tw \<le> length (buf_get t (fst b))"
  shows "\<exists>t'. lift_row w rnd q g cw tw pitch a b rw t = Inr t' \<and> same_lengths t' t"
proof -
  let ?inp = "ptr_add a (rw * (cw + pitch))"
  let ?out = "ptr_add b (rw * (tw * 2))"
  have inp: "fst ?inp = fst a" "snd ?inp = snd a + rw * (cw + pitch)"
    and out: "fst ?out = fst b" "snd ?out = snd b + rw * (tw * 2)"
    by (simp_all add: ptr_add_def)
  have "\<exists>m1. for_loop cw (\<lambda>i m. bindE (rd_ptr m ?inp i) (wr_aux m i)) t = Inr m1
          \<and> same_lengths m1 t"
  proof (rule for_loop_same_lengths)
    fix i u assume i: "i < cw" and sl: "same_lengths u t"
    from i A sl have "snd ?inp + i < length (buf_get u (fst ?inp))"
      by (simp add: inp same_lengths_buf)
    moreover from i cw aux sl have "i < length (aux_memory u)"
      by (simp add: same_lengths_aux)
    ultimately show "\<exists>t'. bindE (rd_ptr u ?inp i) (wr_aux u i) = Inr t' \<and> same_lengths t' t"
      using to_aux_total sl by (blast intro: same_lengths_trans)
  qed
  then obtain m1 where m1: "for_loop cw (\<lambda>i m. bindE (rd_ptr m ?inp i) (wr_aux m i)) t = Inr m1"
    and sl1: "same_lengths m1 t" by blast
  have "\<exists>m2. (if size_sub (tw * 2) cw \<noteq> 0
              then bindE (rd_ptr m1 ?inp (size_sub cw 1)) (wr_aux m1 (size_sub (tw * 2) 1))
              else Inr m1) = Inr m2 \<and> same_lengths m2 t"
  proof (cases "size_sub (tw * 2) cw \<noteq> 0")
    case False
    with sl1 show ?thesis by simp
  next
    case True
    from cw have s1: "size_sub cw 1 = cw - 1" by (simp add: size_sub_def)
    from tw have s2: "size_sub (tw * 2) 1 = tw * 2 - 1" by (simp add: size_sub_def)
    from cw A sl1 have "snd ?inp + (cw - 1) < length (buf_get m1 (fst ?inp))"
      by (simp add: inp same_lengths_buf)
    moreover from tw aux sl1 have "tw * 2 - 1 < length (aux_memory m1)"
      by (simp add: same_lengths_aux)
    ultimately have "\<exists>t'. bindE (rd_ptr m1 ?inp (cw - 1)) (wr_aux m1 (tw * 2 - 1)) = Inr t'
                       \<and> same_lengths t' m1"
      by (rule to_aux_total)
    with True sl1 show ?thesis
      unfolding s1 s2 by (auto intro: same_lengths_trans)
  qed
  then obtain m2 where m2: "(if size_sub (tw * 2) cw \<noteq> 0
              then bindE (rd_ptr m1 ?inp (size_sub cw 1)) (wr_aux m1 (size_sub (tw * 2) 1))
              else Inr m1) = Inr m2" and sl2: "same_lengths m2 t" by blast
  have "\<exists>t'. sLift1d_rows w rnd q g tw m2 ?out = Inr t' \<and> same_lengths t' m2"
  proof (rule sLift1d_rows_total [OF q])
    show "tw \<noteq> 1" using tw by simp
    show "2 * tw \<le> length (aux_memory m2)" using aux sl2 by (simp add: same_lengths_aux)
    show "snd ?out + 2 * tw \<le> length (buf_get m2 (fst ?out))"
      using B sl2 by (simp add: out same_lengths_buf)
  qed
  then obtain t' where t': "sLift1d_rows w rnd q g tw m2 ?out = Inr t'"
    and sl3: "same_lengths t' m2" by blast
  from m1 m2 t' have "lift_row w rnd q g cw tw pitch a b rw t = Inr t'"
    by (simp add: lift_row_def Let_def)
  with sl3 sl2 show ?thesis by (blast intro: same_lengths_trans)
qed

lemma lift_col_total:
  assumes q: "sint q \<noteq> 0" and th: "2 \<le> th" and c: "c < tw * 2"
    and aux: "4 * th \<le> length (aux_memory t)"
    and A: "snd a + (th * 2) * (tw * 2) \<le> length (buf_get t (fst a))"
    and B: "snd b + (th * 2) * (tw * 2) \<le> length (buf_get t (fst b))"
  shows "\<exists>t'. lift_col w rnd q g tw th a b c t = Inr t' \<and> same_lengths t' t"
proof -
  have idx: "c + i * (tw * 2) < (th * 2) * (tw * 2)" if "i < th * 2" for i
  proof -
    from that have "Suc i * (tw * 2) \<le> (th * 2) * (tw * 2)" by (intro mult_le_mono1) simp
    with c show ?thesis by simp
  qed
  have "\<exists>m1. for_loop (th * 2) (\<lambda>i m. bindE (rd_ptr m b (c + i * (tw * 2))) (wr_aux m i)) t
               = Inr m1 \<and> same_lengths m1 t"
  proof (rule for_loop_same_lengths)
    fix i u assume i: "i < th * 2" and sl: "same_lengths u t"
    from idx [OF i] B sl have "snd b + (c + i * (tw * 2)) < length (buf_get u (fst b))"
      by (simp add: same_lengths_buf)
    moreover from i aux sl have "i < length (aux_memory u)" by (simp add: same_lengths_aux)
    ultimately show "\<exists>t'. bindE (rd_ptr u b (c + i * (tw * 2))) (wr_aux u i) = Inr t'
                       \<and> same_lengths t' t"
      using to_aux_total sl by (blast intro: same_lengths_trans)
  qed
  then obtain m1 where
    m1: "for_loop (th * 2) (\<lambda>i m. bindE (rd_ptr m b (c + i * (tw * 2))) (wr_aux m i)) t = Inr m1"
    and sl1: "same_lengths m1 t" by blast
  have "\<exists>m2. sLift1d_cols w rnd q g th m1 = Inr m2 \<and> same_lengths m2 m1"
    by (rule sLift1d_cols_total [OF q]) (use th aux sl1 in \<open>simp_all add: same_lengths_aux\<close>)
  then obtain m2 where m2: "sLift1d_cols w rnd q g th m1 = Inr m2"
    and sl2': "same_lengths m2 m1" by blast
  from sl2' sl1 have sl2: "same_lengths m2 t" by (rule same_lengths_trans)
  have "\<exists>m3. for_loop (th * 2)
                (\<lambda>i m. bindE (rd (aux_memory m) (th * 2 + i)) (wr_ptr m a (c + i * (tw * 2)))) m2
               = Inr m3 \<and> same_lengths m3 m2"
  proof (rule for_loop_same_lengths)
    fix i u assume i: "i < th * 2" and sl: "same_lengths u m2"
    from sl sl2 have slt: "same_lengths u t" by (rule same_lengths_trans)
    from idx [OF i] A slt have "snd a + (c + i * (tw * 2)) < length (buf_get u (fst a))"
      by (simp add: same_lengths_buf)
    moreover from i aux slt have "th * 2 + i < length (aux_memory u)"
      by (simp add: same_lengths_aux)
    ultimately show "\<exists>t'. bindE (rd (aux_memory u) (th * 2 + i)) (wr_ptr u a (c + i * (tw * 2)))
                       = Inr t' \<and> same_lengths t' m2"
      using from_aux_total sl by (blast intro: same_lengths_trans)
  qed
  then obtain m3 where
    m3: "for_loop (th * 2)
           (\<lambda>i m. bindE (rd (aux_memory m) (th * 2 + i)) (wr_ptr m a (c + i * (tw * 2)))) m2
          = Inr m3" and sl3: "same_lengths m3 m2" by blast
  from m1 m2 m3 have "lift_col w rnd q g tw th a b c t = Inr m3"
    by (simp add: lift_col_def)
  with sl3 sl2 show ?thesis by (blast intro: same_lengths_trans)
qed

lemma sLift2d_total:
  assumes q: "sint q \<noteq> 0" and tw: "2 \<le> tw" and th: "2 \<le> th"
    and cw: "0 < cw" "cw \<le> 2 * tw" and chh: "0 < chh" "chh \<le> 2 * th"
    and aux: "2 * tw \<le> length (aux_memory m)" "4 * th \<le> length (aux_memory m)"
    and A1: "snd a + (chh - 1) * (cw + pitch) + cw \<le> length (buf_get m (fst a))"
    and A2: "snd a + (th * 2) * (tw * 2) \<le> length (buf_get m (fst a))"
    and B: "snd b + (th * 2) * (tw * 2) \<le> length (buf_get m (fst b))"
  shows "\<exists>m'. sLift2d w rnd ch q g cw chh tw th pitch m a b = Inr m' \<and> same_lengths m' m"
proof -
  let ?out = "ptr_add b (chh * (tw * 2))"
  have out: "fst ?out = fst b" "snd ?out = snd b + chh * (tw * 2)"
    by (simp_all add: ptr_add_def)
  from chh have rows_fit: "chh * (tw * 2) \<le> (th * 2) * (tw * 2)"
    by (intro mult_le_mono1) simp
  have "\<exists>m1. for_loop chh (lift_row w rnd q g cw tw pitch a b) m = Inr m1 \<and> same_lengths m1 m"
  proof (rule for_loop_same_lengths)
    fix r u assume r: "r < chh" and sl: "same_lengths u m"
    from r have "r * (cw + pitch) \<le> (chh - 1) * (cw + pitch)" by (intro mult_le_mono1) simp
    with A1 have "snd a + r * (cw + pitch) + cw \<le> length (buf_get m (fst a))"
      by linarith
    with sl have a: "snd a + r * (cw + pitch) + cw \<le> length (buf_get u (fst a))"
      by (simp only: same_lengths_buf)
    from r have "Suc r * (tw * 2) \<le> chh * (tw * 2)" by (intro mult_le_mono1) simp
    then have "r * (tw * 2) + tw * 2 \<le> chh * (tw * 2)" by simp
    with rows_fit B have "snd b + r * (tw * 2) + 2 * tw \<le> length (buf_get m (fst b))"
      by linarith
    with sl have b: "snd b + r * (tw * 2) + 2 * tw \<le> length (buf_get u (fst b))"
      by (simp only: same_lengths_buf)
    from aux sl have x: "2 * tw \<le> length (aux_memory u)" by (simp add: same_lengths_aux)
    from lift_row_total [OF q tw cw x a b] sl
    show "\<exists>t'. lift_row w rnd q g cw tw pitch a b r u = Inr t' \<and> same_lengths t' m"
      by (blast intro: same_lengths_trans)
  qed
  then obtain m1 where m1: "for_loop chh (lift_row w rnd q g cw tw pitch a b) m = Inr m1"
    and sl1: "same_lengths m1 m" by blast
  have "\<exists>m2. (if size_sub (th * 2) chh \<noteq> 0
              then (if snd ?out < tw * 2 then Inl OutOfBounds
                    else memcpy_ptr m1 ?out (fst ?out, snd ?out - tw * 2) (tw * 2))
              else Inr m1) = Inr m2 \<and> same_lengths m2 m"
  proof (cases "size_sub (th * 2) chh \<noteq> 0")
    case False
    with sl1 show ?thesis by simp
  next
    case True
    with chh have lt: "chh < th * 2" by (simp add: size_sub_def)
    then have "Suc chh * (tw * 2) \<le> (th * 2) * (tw * 2)" by (intro mult_le_mono1) simp
    then have "chh * (tw * 2) + tw * 2 \<le> (th * 2) * (tw * 2)" by simp
    with B have "snd b + chh * (tw * 2) + tw * 2 \<le> length (buf_get m (fst b))"
      by linarith
    then have dst: "snd ?out + tw * 2 \<le> length (buf_get m (fst ?out))"
      by (simp only: out)
    from chh have "1 * (tw * 2) \<le> chh * (tw * 2)" by (intro mult_le_mono1) simp
    then have "tw * 2 \<le> snd b + chh * (tw * 2)" by linarith
    then have ge: "tw * 2 \<le> snd ?out" by (simp only: out)
    have "\<exists>m'. memcpy_ptr m1 ?out (fst ?out, snd ?out - tw * 2) (tw * 2) = Inr m'
            \<and> same_lengths m' m1"
      by (rule memcpy_ptr_total) (use dst ge sl1 in \<open>simp_all add: same_lengths_buf\<close>)
    with True ge sl1 show ?thesis by (auto intro: same_lengths_trans)
  qed
  then obtain m2 where m2: "(if size_sub (th * 2) chh \<noteq> 0
              then (if snd ?out < tw * 2 then Inl OutOfBounds
                    else memcpy_ptr m1 ?out (fst ?out, snd ?out - tw * 2) (tw * 2))
              else Inr m1) = Inr m2" and sl2: "same_lengths m2 m" by blast
  have "\<exists>m3. for_loop (tw * 2) (lift_col w rnd q g tw th a b) m2 = Inr m3 \<and> same_lengths m3 m2"
  proof (rule for_loop_same_lengths)
    fix c u assume c: "c < tw * 2" and sl: "same_lengths u m2"
    from sl sl2 have slm: "same_lengths u m" by (rule same_lengths_trans)
    from aux slm have x: "4 * th \<le> length (aux_memory u)" by (simp add: same_lengths_aux)
    from A2 slm have a: "snd a + (th * 2) * (tw * 2) \<le> length (buf_get u (fst a))"
      by (simp add: same_lengths_buf)
    from B slm have b: "snd b + (th * 2) * (tw * 2) \<le> length (buf_get u (fst b))"
      by (simp add: same_lengths_buf)
    from lift_col_total [OF q th c x a b] sl
    show "\<exists>t'. lift_col w rnd q g tw th a b c u = Inr t' \<and> same_lengths t' m2"
      by (blast intro: same_lengths_trans)
  qed
  then obtain m3 where m3: "for_loop (tw * 2) (lift_col w rnd q g tw th a b) m2 = Inr m3"
    and sl3: "same_lengths m3 m2" by blast
  from m1 m2 m3 have "sLift2d w rnd ch q g cw chh tw th pitch m a b = Inr m3"
    by (simp add: sLift2d_def Let_def)
  with sl3 sl2 show ?thesis by (blast intro: same_lengths_trans)
qed



lemma nested_copy_total:
  fixes inp out :: "int16 list"
  assumes src: "\<And>i j. i < n \<Longrightarrow> j < k \<Longrightarrow> src i j < length inp"
    and fit: "ooff + n * k \<le> length out"
  shows "\<exists>out'. for_loop n (\<lambda>i. for_loop k (\<lambda>j dst.
            bindE (rd inp (src i j)) (wr dst (ooff + (i * k + j))))) out = Inr out'
          \<and> length out' = length out"
proof (rule for_loop_length_total [OF refl])
  fix i and t :: "int16 list" assume i: "i < n" and lt: "length t = length out"
  show "\<exists>t'. for_loop k (\<lambda>j dst. bindE (rd inp (src i j)) (wr dst (ooff + (i * k + j)))) t = Inr t'
          \<and> length t' = length out"
  proof (rule for_loop_length_total [OF lt])
    fix j and u :: "int16 list" assume j: "j < k" and lu: "length u = length out"
    from i have "Suc i * k \<le> n * k" by (intro mult_le_mono1) simp
    with j have "i * k + j < n * k" by simp
    with fit lu have "ooff + (i * k + j) < length u" by simp
    with src [OF i j]
    show "\<exists>t'. bindE (rd inp (src i j)) (wr u (ooff + (i * k + j))) = Inr t'
            \<and> length t' = length out"
      using lu by (simp add: rd_def wr_def)
  qed
qed

lemma quadrant_index:
  fixes c r tw th :: nat
  assumes "c < tw" "r < th"
  shows "c + r * (tw * 2) + tw < th * (tw * 2)"
proof -
  from assms(2) have "Suc r * (tw * 2) \<le> th * (tw * 2)" by (intro mult_le_mono1) simp
  then have "r * (tw * 2) + tw * 2 \<le> th * (tw * 2)" by simp
  with assms(1) show ?thesis by linarith
qed

lemma s2dToLinearV_total:
  assumes "ioff + th * (tw * 2) \<le> length inp + tw" "ooff + tw * th \<le> length out"
  shows "\<exists>out'. s2dToLinearV tw th (tw * 2) inp ioff out ooff = Inr out'
           \<and> length out' = length out"
  unfolding s2dToLinearV_def
proof (rule nested_copy_total [where src = "\<lambda>c r. ioff + c + (r * (tw * 2))"])
  fix c r assume "c < tw" "r < th"
  from quadrant_index [OF this] assms(1) show "ioff + c + r * (tw * 2) < length inp"
    by linarith
next
  show "ooff + tw * th \<le> length out" by (rule assms(2))
qed

lemma s2dToLinearH_total:
  assumes "ioff + th * (tw * 2) \<le> length inp + tw" "ooff + th * tw \<le> length out"
  shows "\<exists>out'. s2dToLinearH tw th (tw * 2) inp ioff out ooff = Inr out'
           \<and> length out' = length out"
  unfolding s2dToLinearH_def
proof (rule nested_copy_total [where src = "\<lambda>r c. ioff + (r * (tw * 2)) + c"])
  fix r c assume "r < th" "c < tw"
  from quadrant_index [OF this(2,1)] assms(1) show "ioff + r * (tw * 2) + c < length inp"
    by linarith
next
  show "ooff + th * tw \<le> length out" by (rule assms(2))
qed

lemma emit_highpasses_total:
  assumes cur: "record_length (tw, th) \<le> c" "c \<le> length (out_mem m)"
    and plane: "lp + (th * 2) * (tw * 2) \<le> length (in_mem m)"
  shows "\<exists>m' c'. emit_highpasses tw th lp q (m, c) = Inr (m', c') \<and> same_lengths m' m
           \<and> c' + record_length (tw, th) = c"
proof -
  let ?n = "tw * th"
  from cur(1) have ge: "?n * 3 + 1 \<le> c" by (simp add: record_length_def)
  define c1 where "c1 = c - ?n * 3"
  from ge have c: "c = c1 + ?n * 3" and c1: "1 \<le> c1" by (simp_all add: c1_def)
  have cb: "cursor_back c (?n * 3) = Inr c1" by (simp add: cursor_back_def c)
  have dbl: "(th * 2) * (tw * 2) = th * (tw * 2) + th * (tw * 2)" by simp
  have hlf: "tw * th * 2 = th * (tw * 2)" by simp
  have r1: "(lp + tw * th * 2) + th * (tw * 2) \<le> length (in_mem m) + tw"
    using plane dbl hlf by linarith
  have r2: "(lp + tw) + th * (tw * 2) \<le> length (in_mem m) + tw"
    using plane dbl by linarith
  have r3: "(lp + tw + th * (tw * 2)) + th * (tw * 2) \<le> length (in_mem m) + tw"
    using plane dbl by linarith
  have "c1 + ?n * 0 + tw * th \<le> length (out_mem m)" using c cur(2) by linarith
  from s2dToLinearV_total [OF r1 this] obtain o1 where
    o1: "s2dToLinearV tw th (tw * 2) (in_mem m) (lp + tw * th * 2) (out_mem m) (c1 + ?n * 0)
           = Inr o1" and l1: "length o1 = length (out_mem m)" by blast
  have "c1 + ?n * 1 + tw * th \<le> length o1" using c cur(2) l1 by linarith
  from s2dToLinearV_total [OF r2 this] obtain o2 where
    o2: "s2dToLinearV tw th (tw * 2) (in_mem m) (lp + tw) o1 (c1 + ?n * 1) = Inr o2"
    and l2: "length o2 = length o1" by blast
  have "c1 + ?n * 2 + tw * th \<le> length o2" using c cur(2) l1 l2 by linarith
  from s2dToLinearV_total [OF r3 this] obtain o3 where
    o3: "s2dToLinearV tw th (tw * 2) (in_mem m) (lp + tw + th * (tw * 2)) o2 (c1 + ?n * 2)
           = Inr o3" and l3: "length o3 = length o2" by blast
  from c c1 cur(2) l1 l2 l3 have w: "c1 - 1 < length o3" by linarith
  from c1 have cb1: "cursor_back c1 1 = Inr (c1 - 1)" by (simp add: cursor_back_def)
  have "emit_highpasses tw th lp q (m, c) = Inr (m\<lparr>out_mem := o3[c1 - 1 := q]\<rparr>, c1 - 1)"
    unfolding emit_highpasses_def Let_def fst_conv snd_conv
    by (simp only: cb bindE_Inr o1 o2 o3 cb1 wr_def w if_True)
  moreover have "same_lengths (m\<lparr>out_mem := o3[c1 - 1 := q]\<rparr>) m"
    using l1 l2 l3 by (simp add: same_lengths_def)
  moreover have "c1 - 1 + record_length (tw, th) = c"
    using c c1 by (simp add: record_length_def)
  ultimately show ?thesis by blast
qed

lemma emit_lowpass_total:
  assumes cur: "tw * th \<le> c" "c \<le> length (out_mem m)"
    and plane: "((tile_w * tile_h) + ps) * ch + th * (tw * 2) \<le> length (in_mem m) + tw"
  shows "\<exists>m' c'. emit_lowpass tile_w tile_h ps tw th ch (m, c) = Inr (m', c')
           \<and> same_lengths m' m \<and> c' + tw * th = c"
proof -
  from cur have "(c - tw * th) + th * tw \<le> length (out_mem m)" by (simp add: mult.commute)
  from s2dToLinearH_total [OF plane this] obtain o1 where
    o1: "s2dToLinearH tw th (tw * 2) (in_mem m) (((tile_w * tile_h) + ps) * ch) (out_mem m)
           (c - tw * th) = Inr o1" and l1: "length o1 = length (out_mem m)" by blast
  from cur o1
  have "emit_lowpass tile_w tile_h ps tw th ch (m, c) = Inr (m\<lparr>out_mem := o1\<rparr>, c - tw * th)"
    by (simp add: emit_lowpass_def Let_def cursor_back_def)
  moreover have "same_lengths (m\<lparr>out_mem := o1\<rparr>) m" using l1 by (simp add: same_lengths_def)
  ultimately show ?thesis using cur by auto
qed

lemma foldE_cursor_total:
  assumes step: "\<And>i m c. i \<in> set xs \<Longrightarrow> same_lengths m m0 \<Longrightarrow> d \<le> c \<Longrightarrow> c \<le> c0 \<Longrightarrow>
                   \<exists>m' c'. body i (m, c) = Inr (m', c') \<and> same_lengths m' m0 \<and> c' + d = c"
    and "length xs * d \<le> c" "c \<le> c0" "same_lengths m m0"
  shows "\<exists>m' c'. foldE body xs (m, c) = Inr (m', c') \<and> same_lengths m' m0
           \<and> c' + length xs * d = c"
  using assms
proof (induction xs arbitrary: m c)
  case Nil
  then show ?case by simp
next
  case (Cons x xs)
  from Cons.prems(2) have d: "d \<le> c" by simp
  have "x \<in> set (x # xs)" by simp
  from Cons.prems(1) [OF this Cons.prems(4) d Cons.prems(3)] obtain m1 c1 where
    1: "body x (m, c) = Inr (m1, c1)" "same_lengths m1 m0" "c1 + d = c"
    by blast
  from 1(3) Cons.prems(2,3) have c1: "length xs * d \<le> c1" "c1 \<le> c0" by simp_all
  have "\<exists>m' c'. foldE body xs (m1, c1) = Inr (m', c') \<and> same_lengths m' m0
           \<and> c' + length xs * d = c1"
    by (rule Cons.IH [OF _ c1 1(2)]) (rule Cons.prems(1), simp_all)
  with 1 show ?case by auto
qed



lemma half_up_le: "half_up n \<le> n"
  by (simp add: half_up_def) presburger

lemma half_up_ge2: "2 < n \<Longrightarrow> 2 \<le> half_up n"
  by (simp add: half_up_def) presburger

lemma half_up_double_le: "2 * half_up n \<le> n + 1"
  by (simp add: half_up_def) presburger

lemma half_up_pos: "0 < n \<Longrightarrow> 0 < half_up n"
  by (simp add: half_up_def) presburger

lemma half_up_quarter:
  assumes "2 < a" "2 < b"
  shows "4 * (half_up a * half_up b) \<le> 2 * (a * b)"
proof -
  have "4 * (half_up a * half_up b) = (2 * half_up a) * (2 * half_up b)" by simp
  also have "\<dots> \<le> (a + 1) * (b + 1)"
    by (intro mult_le_mono half_up_double_le)
  also have "\<dots> \<le> 2 * (a * b)"
  proof -
    from assms have "a = (a - 3) + 3" "b = (b - 3) + 3" by simp_all
    then obtain x y where "a = x + 3" "b = y + 3" by blast
    then show ?thesis by (simp add: algebra_simps)
  qed
  finally show ?thesis .
qed

lemma lift_channel_total:
  assumes q: "sint (float_to_int16
                 (fst (quant_gate E s (TileTotalLifts E tile_w tile_h) lft ch))) \<noteq> 0"
    and tw: "2 \<le> tw" and th: "2 \<le> th"
    and cw: "0 < cw" "cw \<le> 2 * tw" and chh: "0 < chh" "chh \<le> 2 * th"
    and l0: "lft = 0 \<longrightarrow> cw = tile_w \<and> chh = tile_h"
    and aux: "2 * tw \<le> length (aux_memory m)" "4 * th \<le> length (aux_memory m)"
    and A1: "((tile_w * tile_h) + ps) * ch + chh * (cw + (if lft = 0 then 0 else cw))
               \<le> length (in_mem m)"
    and A2: "((tile_w * tile_h) + ps) * ch + (th * 2) * (tw * 2) \<le> length (in_mem m)"
    and B0: "lft = 0 \<longrightarrow> (tile_w * tile_h) * ch + (th * 2) * (tw * 2) \<le> length (out_mem m)"
    and B1: "lft \<noteq> 0 \<longrightarrow> ((tile_w * tile_h) + ps) * ch + (cw * chh * 2) + (th * 2) * (tw * 2)
               \<le> length (in_mem m)"
    and cur: "record_length (tw, th) \<le> c" "c \<le> length (out_mem m)"
  shows "\<exists>m' c'. lift_channel E s tile_w tile_h ps lft cw chh tw th ch (m, c) = Inr (m', c')
           \<and> same_lengths m' m \<and> c' + record_length (tw, th) = c"
proof -
  let ?lp = "((tile_w * tile_h) + ps) * ch"
  obtain qf g where qg: "quant_gate E s (TileTotalLifts E tile_w tile_h) lft ch = (qf, g)"
    by (cases "quant_gate E s (TileTotalLifts E tile_w tile_h) lft ch")
  with q have q': "sint (float_to_int16 qf) \<noteq> 0" by simp
  let ?p = "if lft = 0 then 0 else cw"
  from chh have "(chh - 1) * (cw + ?p) + (cw + ?p) = chh * (cw + ?p)"
    by (metis Suc_pred' One_nat_def mult_Suc add.commute)
  with A1 have rows: "?lp + (chh - 1) * (cw + ?p) + cw \<le> length (in_mem m)" by linarith
  have "\<exists>m1. (if lft = 0
             then sLift2d (AKO_WAVELET E) (float_round E) ch (float_to_int16 qf) g
                    tile_w tile_h tw th 0 m (InBuf, ?lp) (OutBuf, (tile_w * tile_h) * ch)
             else sLift2d (AKO_WAVELET E) (float_round E) ch (float_to_int16 qf) g
                    cw chh tw th cw m (InBuf, ?lp) (InBuf, ?lp + (cw * chh * 2))) = Inr m1
          \<and> same_lengths m1 m"
  proof (cases "lft = 0")
    case True
    with l0 have eq: "tile_w = cw" "tile_h = chh" by simp_all
    have "\<exists>m'. sLift2d (AKO_WAVELET E) (float_round E) ch (float_to_int16 qf) g
                    cw chh tw th 0 m (InBuf, ?lp) (OutBuf, (tile_w * tile_h) * ch) = Inr m'
            \<and> same_lengths m' m"
      by (rule sLift2d_total [OF q' tw th cw chh aux])
         (use rows A2 B0 True in \<open>simp_all add: buf_get_def\<close>)
    with True show ?thesis by (simp add: eq)
  next
    case False
    have "\<exists>m'. sLift2d (AKO_WAVELET E) (float_round E) ch (float_to_int16 qf) g
                    cw chh tw th cw m (InBuf, ?lp) (InBuf, ?lp + (cw * chh * 2)) = Inr m'
            \<and> same_lengths m' m"
      by (rule sLift2d_total [OF q' tw th cw chh aux])
         (use rows A2 B1 False in \<open>simp_all add: buf_get_def\<close>)
    with False show ?thesis by simp
  qed
  then obtain m1 where m1: "(if lft = 0
             then sLift2d (AKO_WAVELET E) (float_round E) ch (float_to_int16 qf) g
                    tile_w tile_h tw th 0 m (InBuf, ?lp) (OutBuf, (tile_w * tile_h) * ch)
             else sLift2d (AKO_WAVELET E) (float_round E) ch (float_to_int16 qf) g
                    cw chh tw th cw m (InBuf, ?lp) (InBuf, ?lp + (cw * chh * 2))) = Inr m1"
    and sl1: "same_lengths m1 m" by blast
  have "\<exists>m' c'. emit_highpasses tw th ?lp (float_to_int16 qf) (m1, c) = Inr (m', c')
          \<and> same_lengths m' m1 \<and> c' + record_length (tw, th) = c"
    by (rule emit_highpasses_total)
       (use cur A2 sl1 in \<open>simp_all add: same_lengths_def\<close>)
  then obtain m' c' where
    e: "emit_highpasses tw th ?lp (float_to_int16 qf) (m1, c) = Inr (m', c')"
    and sl2: "same_lengths m' m1" and c': "c' + record_length (tw, th) = c" by blast
  from m1 e qg
  have "lift_channel E s tile_w tile_h ps lft cw chh tw th ch (m, c) = Inr (m', c')"
    by (cases "lft = 0") (simp_all add: lift_channel_def Let_def)
  with sl1 sl2 c' show ?thesis by (blast intro: same_lengths_trans)
qed



lemma plane_offset_le:
  fixes P ch C :: nat
  assumes "ch < C"
  shows "P * ch + P \<le> C * P"
proof -
  from assms have "Suc ch * P \<le> C * P" by (intro mult_le_mono1) simp
  then show ?thesis by (simp add: mult.commute)
qed

lemma highpasses_total:
  assumes "\<forall>ch<channels. quantization s ch < 32768"
    and "channels * ((tile_w * tile_h) + ps) \<le> length (in_mem m0)"
    and "same_lengths (memory st) m0"
    and "output_cursor st = channels * stream_length (target_w st) (target_h st)"
    and "output_cursor st \<le> length (out_mem m0)"
    and "if lift st = 0
         then target_w st = tile_w \<and> target_h st = tile_h
              \<and> 4 * (half_up tile_w * half_up tile_h) \<le> (tile_w * tile_h) + ps
              \<and> 2 * half_up tile_w \<le> length (aux_memory m0)
              \<and> 4 * half_up tile_h \<le> length (aux_memory m0)
         else 4 * (target_w st * target_h st) \<le> (tile_w * tile_h) + ps
              \<and> 2 * target_w st \<le> length (aux_memory m0)
              \<and> 4 * target_h st \<le> length (aux_memory m0)"
  shows "\<exists>st'. highpasses E s tile_w tile_h channels ps st = Inr st'
           \<and> same_lengths (memory st') m0
           \<and> output_cursor st' \<le> length (out_mem m0)
           \<and> (0 < lift st' \<longrightarrow> 4 * (target_w st' * target_h st') \<le> (tile_w * tile_h) + ps)"
  using assms
proof (induction E s tile_w tile_h channels ps st rule: highpasses.induct)
  case (1 E s tile_w tile_h channels ps st)
  note q = "1.prems"(1) and inb = "1.prems"(2) and sl = "1.prems"(3)
    and cur = "1.prems"(4,5) and geo = "1.prems"(6)
  show ?case
  proof (cases "2 < target_w st \<and> 2 < target_h st")
    case False
    then have "highpasses E s tile_w tile_h channels ps st = Inr st"
      by (subst highpasses.simps) (simp only: if_False)
    moreover have "0 < lift st \<longrightarrow> 4 * (target_w st * target_h st) \<le> (tile_w * tile_h) + ps"
      using geo by (simp split: if_splits)
    ultimately show ?thesis using sl cur by simp
  next
    case True
    let ?cw = "target_w st" and ?chh = "target_h st"
    let ?tw = "half_up (target_w st)" and ?th = "half_up (target_h st)"
    let ?P = "(tile_w * tile_h) + ps"
    let ?rec = "record_length (?tw, ?th)"
    from True have big: "2 < ?cw" "2 < ?chh" by simp_all
    have tw2: "2 \<le> ?tw" and th2: "2 \<le> ?th" using big by (simp_all add: half_up_ge2)
    have cwp: "0 < ?cw" and chp: "0 < ?chh" using big by simp_all
    have cw2: "?cw \<le> 2 * ?tw" and ch2: "?chh \<le> 2 * ?th" by (rule half_up_double)+
    have Y_le_X: "4 * (?tw * ?th) \<le> 4 * (?cw * ?chh)"
      by (intro mult_le_mono half_up_le le_refl)
    have quarter: "4 * (?tw * ?th) \<le> 2 * (?cw * ?chh)"
      by (rule half_up_quarter [OF big])
    have aux: "2 * ?tw \<le> length (aux_memory m0)" "4 * ?th \<le> length (aux_memory m0)"
      and P4: "4 * (?tw * ?th) \<le> ?P"
      and PX: "lift st \<noteq> 0 \<longrightarrow> 4 * (?cw * ?chh) \<le> ?P"
      and l0: "lift st = 0 \<longrightarrow> ?cw = tile_w \<and> ?chh = tile_h"
    proof -
      have a: "2 * ?tw \<le> 2 * ?cw" "4 * ?th \<le> 4 * ?chh"
        by (intro mult_le_mono half_up_le le_refl)+
      show "2 * ?tw \<le> length (aux_memory m0)"
        using geo a by (cases "lift st = 0") (simp, simp)
      show "4 * ?th \<le> length (aux_memory m0)"
        using geo a by (cases "lift st = 0") (simp, simp)
      show "4 * (?tw * ?th) \<le> ?P"
        using geo Y_le_X by (cases "lift st = 0") (simp, simp)
      show "lift st \<noteq> 0 \<longrightarrow> 4 * (?cw * ?chh) \<le> ?P"
        using geo by simp
      show "lift st = 0 \<longrightarrow> ?cw = tile_w \<and> ?chh = tile_h"
        using geo by simp
    qed
    have c0: "output_cursor st
                = channels * ?rec + channels * stream_length ?tw ?th"
      using cur(1) True by (simp add: stream_length_rec distrib_left)
    have step: "\<exists>m' c'. lift_channel E s tile_w tile_h ps (lift st) ?cw ?chh ?tw ?th ch (m, c)
                   = Inr (m', c') \<and> same_lengths m' m0 \<and> c' + ?rec = c"
      if ch: "ch \<in> set (channels_down channels)" and slm: "same_lengths m m0"
        and c: "?rec \<le> c" "c \<le> output_cursor st" for ch m c
    proof -
      from ch have chC: "ch < channels" by (simp add: channels_down_def)
      from slm have len: "length (aux_memory m) = length (aux_memory m0)"
        "length (in_mem m) = length (in_mem m0)" "length (out_mem m) = length (out_mem m0)"
        by (simp_all add: same_lengths_def)
      from q chC have "quantization s ch < 32768" by simp
      from quant_step_positive [OF this, of E "TileTotalLifts E tile_w tile_h" "lift st"]
      have qz: "sint (float_to_int16
                  (fst (quant_gate E s (TileTotalLifts E tile_w tile_h) (lift st) ch))) \<noteq> 0"
        by simp
      have plane: "?P * ch + ?P \<le> length (in_mem m)"
        using plane_offset_le [OF chC, of ?P] inb len(2) by linarith
      have e1: "(?th * 2) * (?tw * 2) = 4 * (?tw * ?th)" by simp
      have e2: "?chh * (?cw + ?cw) = 2 * (?cw * ?chh)" by simp
      have e3: "?cw * ?chh * 2 = 2 * (?cw * ?chh)" by simp
      have A1: "?P * ch + ?chh * (?cw + (if lift st = 0 then 0 else ?cw)) \<le> length (in_mem m)"
      proof (cases "lift st = 0")
        case True
        with l0 have "?chh * ?cw = tile_w * tile_h" by (simp add: mult.commute)
        then have "?chh * ?cw \<le> ?P" by simp
        with plane True show ?thesis by simp
      next
        case False
        with PX have "4 * (?cw * ?chh) \<le> ?P" by simp
        with plane have "?P * ch + 2 * (?cw * ?chh) \<le> length (in_mem m)" by linarith
        with False show ?thesis by (simp only: if_False e2)
      qed
      have A2: "?P * ch + (?th * 2) * (?tw * 2) \<le> length (in_mem m)"
        unfolding e1 using plane P4 by linarith
      have B0: "lift st = 0 \<longrightarrow>
                  (tile_w * tile_h) * ch + (?th * 2) * (?tw * 2) \<le> length (out_mem m)"
      proof
        assume z: "lift st = 0"
        with l0 have eq: "tile_w = ?cw" "tile_h = ?chh" by simp_all
        let ?S = "stream_length ?cw ?chh"
        have "(?cw * ?chh) * ch \<le> ?S * ch"
          by (intro mult_le_mono1 stream_length_ge)
        moreover have "4 * (?tw * ?th) < ?S" by (rule stream_length_room [OF big])
        moreover have "?S * ch + ?S \<le> channels * ?S" by (rule plane_offset_le [OF chC])
        ultimately have "(?cw * ?chh) * ch + 4 * (?tw * ?th) \<le> length (out_mem m)"
          using cur len(3) by linarith
        then show "(tile_w * tile_h) * ch + (?th * 2) * (?tw * 2) \<le> length (out_mem m)"
          unfolding e1 by (simp only: eq [symmetric])
      qed
      have B1: "lift st \<noteq> 0 \<longrightarrow>
                  ?P * ch + (?cw * ?chh * 2) + (?th * 2) * (?tw * 2) \<le> length (in_mem m)"
      proof
        assume "lift st \<noteq> 0"
        with PX have "4 * (?cw * ?chh) \<le> ?P" by simp
        with plane quarter
        show "?P * ch + (?cw * ?chh * 2) + (?th * 2) * (?tw * 2) \<le> length (in_mem m)"
          unfolding e1 e3 by linarith
      qed
      have cur': "c \<le> length (out_mem m)" using c(2) cur(2) len(3) by linarith
      have "\<exists>m' c'. lift_channel E s tile_w tile_h ps (lift st) ?cw ?chh ?tw ?th ch (m, c)
                   = Inr (m', c') \<and> same_lengths m' m \<and> c' + ?rec = c"
        by (rule lift_channel_total [OF qz tw2 th2 cwp cw2 chp ch2 l0 _ _ A1 A2 B0 B1 c(1) cur'])
           (simp_all only: len aux)
      with slm show ?thesis by (blast intro: same_lengths_trans)
    qed
    have "\<exists>m' c'. foldE (lift_channel E s tile_w tile_h ps (lift st) ?cw ?chh ?tw ?th)
                    (channels_down channels) (memory st, output_cursor st) = Inr (m', c')
            \<and> same_lengths m' m0
            \<and> c' + length (channels_down channels) * ?rec = output_cursor st"
      by (rule foldE_cursor_total [where ?c0.0 = "output_cursor st"])
         (use step sl c0 in \<open>simp_all add: channels_down_def\<close>)
    then obtain m1 c1 where
      fold: "foldE (lift_channel E s tile_w tile_h ps (lift st) ?cw ?chh ?tw ?th)
               (channels_down channels) (memory st, output_cursor st) = Inr (m1, c1)"
      and sl1: "same_lengths m1 m0"
      and c1: "c1 + length (channels_down channels) * ?rec = output_cursor st"
      by blast
    from c1 c0 have c1': "c1 = channels * stream_length ?tw ?th"
      by (simp add: channels_down_def)
    from c1 cur(2) have c1le: "c1 \<le> length (out_mem m0)" by linarith
    let ?st2 = "\<lparr>lift = lift st + 1, target_w = ?tw, target_h = ?th,
                 output_cursor = snd (m1, c1), memory = fst (m1, c1)\<rparr>"
    have "\<exists>st'. highpasses E s tile_w tile_h channels ps ?st2 = Inr st'
           \<and> same_lengths (memory st') m0
           \<and> output_cursor st' \<le> length (out_mem m0)
           \<and> (0 < lift st' \<longrightarrow> 4 * (target_w st' * target_h st') \<le> (tile_w * tile_h) + ps)"
      by (rule "1.IH" [OF True refl refl refl refl fold q inb])
         (use sl1 c1' c1le aux P4 in simp_all)
    moreover have "highpasses E s tile_w tile_h channels ps st
                     = highpasses E s tile_w tile_h channels ps ?st2"
      by (subst highpasses.simps) (simp only: big simp_thms if_True Let_def fold sum.case)
    ultimately show ?thesis by simp
  qed
qed



lemma dwt_emit_total:
  assumes len: "TileTotalLength E tile_w tile_h = stream_length tile_w tile_h"
    and big: "2 < tile_w" "2 < tile_h"
    and q: "\<forall>ch<channels. quantization s ch < 32768"
    and fits: "tile_fits tile_w tile_h channels ps m"
  shows "\<exists>st. dwt_emit E s tile_w tile_h channels ps m = Inr st
           \<and> output_cursor st = 0 \<and> same_lengths (memory st) m"
proof -
  let ?P = "(tile_w * tile_h) + ps"
  let ?st0 = "\<lparr>lift = 0, target_w = tile_w, target_h = tile_h,
               output_cursor = TileTotalLength E tile_w tile_h * channels, memory = m\<rparr>"
  from fits have inb: "channels * ?P \<le> length (in_mem m)"
    and outb: "channels * stream_length tile_w tile_h \<le> length (out_mem m)"
    and geo: "4 * (half_up tile_w * half_up tile_h) \<le> ?P"
      "2 * half_up tile_w \<le> length (aux_memory m)" "4 * half_up tile_h \<le> length (aux_memory m)"
    by (simp_all add: tile_fits_def)
  have "\<exists>st'. highpasses E s tile_w tile_h channels ps ?st0 = Inr st'
           \<and> same_lengths (memory st') m
           \<and> output_cursor st' \<le> length (out_mem m)
           \<and> (0 < lift st' \<longrightarrow> 4 * (target_w st' * target_h st') \<le> ?P)"
    by (rule highpasses_total [OF q inb])
       (use len outb geo in \<open>simp_all add: mult.commute\<close>)
  then obtain st1 where all1: "highpasses E s tile_w tile_h channels ps ?st0 = Inr st1
           \<and> same_lengths (memory st1) m
           \<and> output_cursor st1 \<le> length (out_mem m)
           \<and> (0 < lift st1 \<longrightarrow> 4 * (target_w st1 * target_h st1) \<le> ?P)" ..
  then have hp: "highpasses E s tile_w tile_h channels ps ?st0 = Inr st1"
    and sl1: "same_lengths (memory st1) m"
    and c1le: "output_cursor st1 \<le> length (out_mem m)"
    and P1: "0 < lift st1 \<longrightarrow> 4 * (target_w st1 * target_h st1) \<le> ?P"
    by simp_all
  let ?tw = "target_w st1" and ?th = "target_h st1"
  from highpasses_result [OF hp] have H:
    "output_cursor st1 + channels * sum_list (map record_length (lift_sizes tile_w tile_h))
       = TileTotalLength E tile_w tile_h * channels"
    "lift st1 = length (lift_sizes tile_w tile_h)"
    "(?tw, ?th) = final_size tile_w tile_h"
    by simp_all
  from H(2) big have "0 < lift st1" by (simp add: lift_sizes_rec)
  with P1 have P4: "4 * (?tw * ?th) \<le> ?P" by simp
  from H(3) have fs: "fst (final_size tile_w tile_h) = ?tw" "snd (final_size tile_w tile_h) = ?th"
    by (simp_all add: prod_eq_iff)
  from H(1) have c1: "output_cursor st1 = channels * (?tw * ?th)"
    by (simp add: len stream_length_def fs distrib_left mult.commute)
  have step: "\<exists>m' c'. emit_lowpass tile_w tile_h ps ?tw ?th ch (t, c) = Inr (m', c')
                 \<and> same_lengths m' m \<and> c' + ?tw * ?th = c"
    if ch: "ch \<in> set (channels_down channels)" and slt: "same_lengths t m"
      and c: "?tw * ?th \<le> c" "c \<le> output_cursor st1" for ch t c
  proof -
    from ch have chC: "ch < channels" by (simp add: channels_down_def)
    from slt have lens: "length (in_mem t) = length (in_mem m)"
      "length (out_mem t) = length (out_mem m)"
      by (simp_all add: same_lengths_def)
    have e: "?th * (?tw * 2) = 2 * (?tw * ?th)" by simp
    have plane: "?P * ch + ?th * (?tw * 2) \<le> length (in_mem t) + ?tw"
      unfolding e using plane_offset_le [OF chC, of ?P] inb lens(1) P4 by linarith
    have cur': "c \<le> length (out_mem t)" using c(2) c1le lens(2) by linarith
    from emit_lowpass_total [OF c(1) cur' plane] slt
    show ?thesis by (blast intro: same_lengths_trans)
  qed
  have "\<exists>m' c'. foldE (emit_lowpass tile_w tile_h ps ?tw ?th) (channels_down channels)
                   (memory st1, output_cursor st1) = Inr (m', c')
          \<and> same_lengths m' m
          \<and> c' + length (channels_down channels) * (?tw * ?th) = output_cursor st1"
    by (rule foldE_cursor_total [where ?c0.0 = "output_cursor st1"])
       (use step sl1 c1 in \<open>simp_all add: channels_down_def\<close>)
  then obtain m2 c2 where
    lp: "foldE (emit_lowpass tile_w tile_h ps ?tw ?th) (channels_down channels)
           (memory st1, output_cursor st1) = Inr (m2, c2)"
    and sl2: "same_lengths m2 m"
    and c2: "c2 + length (channels_down channels) * (?tw * ?th) = output_cursor st1"
    by blast
  from c2 c1 have "c2 = 0" by (simp add: channels_down_def)
  moreover have "dwt_emit E s tile_w tile_h channels ps m
                   = Inr (st1\<lparr>output_cursor := c2, memory := m2\<rparr>)"
    by (simp add: dwt_emit_def hp lp)
  ultimately show ?thesis using sl2 by simp
qed

lemma DwtTransform_succeeds:
  assumes "AKO_WAVELET E \<noteq> NoWavelet"
    and "TileTotalLength E tile_w tile_h = stream_length tile_w tile_h"
    and "2 < tile_w" "2 < tile_h"
    and "\<forall>ch<channels. quantization s ch < 32768"
    and "tile_fits tile_w tile_h channels planes_space m"
  shows "\<exists>m'. DwtTransform E s tile_w tile_h channels planes_space m = Inr m'
           \<and> same_lengths m' m"
proof -
  from dwt_emit_total [OF assms(2-6)] obtain st where
    "dwt_emit E s tile_w tile_h channels planes_space m = Inr st"
    "output_cursor st = 0" "same_lengths (memory st) m"
    by blast
  with assms(1) show ?thesis by (simp add: DwtTransform_def)
qed


end
